theory Spec2Isabelle
  imports Main "HOL-Library.Word"
begin

section \<open>Data model\<close>

text \<open>
  The program is one script, \<^verbatim>\<open>genGlslEmuLib.py\<close>. It works on files: raw bytes are
  lists of 8-bit words, text is \<^typ>\<open>string\<close>. Every Python exception the modelled code
  can raise becomes a value of \<open>py_error\<close>, and a computation that may raise returns a sum
  with the error on the left.
\<close>

type_synonym byte = "8 word"

datatype py_error =
    IndexError
  | FileNotFoundError
  | IsADirectoryError
  | NotADirectoryError
  | OSError

section \<open>The hex encoder\<close>

text \<open>
  \<^verbatim>\<open>binascii.hexlify(binData).decode()\<close>: two lowercase hexadecimal digits per byte,
  high nibble first (the documented behaviour of the standard library).
\<close>

definition hexdigit :: "nat \<Rightarrow> char" where
  "hexdigit n = ''0123456789abcdef'' ! n"

definition hexlify :: "byte list \<Rightarrow> string" where
  "hexlify binData =
     concat (map (\<lambda>x. [hexdigit (unat x div 16), hexdigit (unat x mod 16)]) binData)"

definition newline :: char where
  "newline = CHR 0x0A"

text \<open>
  The \<^verbatim>\<open>while i < len(hexData)\<close> loop is written out three times in the script. Each
  copy is translated on its own; the loop variables \<open>i\<close> and \<open>hexText\<close> are the
  arguments of the recursion. \<^verbatim>\<open>hexData[i + 1]\<close> raises \<open>IndexError\<close> when
  \<open>i + 1\<close> is out of range.
\<close>

text \<open>Lines 129--138, packaging of a special library.\<close>

function hexText_loop_special :: "string \<Rightarrow> nat \<Rightarrow> string \<Rightarrow> py_error + string" where
  "hexText_loop_special hexData i hexText =
     (if i < length hexData then
        (if i + 1 < length hexData then
           (let hexText = hexText @ ''0x'';
                hexText = hexText @ [hexData ! i];
                hexText = hexText @ [hexData ! (i + 1)];
                i = i + 2;
                hexText = (if i \<noteq> length hexData then hexText @ '', '' else hexText);
                hexText = (if i mod 32 = 0 then hexText @ [newline] else hexText)
            in hexText_loop_special hexData i hexText)
         else Inl IndexError)
      else Inr hexText)"
  by pat_completeness auto
termination
  by (relation "measure (\<lambda>(hexData, i, hexText). length hexData - i)") auto

declare hexText_loop_special.simps [simp del]

text \<open>Lines 174--183, packaging of the common library.\<close>

function hexText_loop_common :: "string \<Rightarrow> nat \<Rightarrow> string \<Rightarrow> py_error + string" where
  "hexText_loop_common hexData i hexText =
     (if i < length hexData then
        (if i + 1 < length hexData then
           (let hexText = hexText @ ''0x'';
                hexText = hexText @ [hexData ! i];
                hexText = hexText @ [hexData ! (i + 1)];
                i = i + 2;
                hexText = (if i \<noteq> length hexData then hexText @ '', '' else hexText);
                hexText = (if i mod 32 = 0 then hexText @ [newline] else hexText)
            in hexText_loop_common hexData i hexText)
         else Inl IndexError)
      else Inr hexText)"
  by pat_completeness auto
termination
  by (relation "measure (\<lambda>(hexData, i, hexText). length hexData - i)") auto

declare hexText_loop_common.simps [simp del]

text \<open>Lines 247--256, packaging of a variant library.\<close>

function hexText_loop_variant :: "string \<Rightarrow> nat \<Rightarrow> string \<Rightarrow> py_error + string" where
  "hexText_loop_variant hexData i hexText =
     (if i < length hexData then
        (if i + 1 < length hexData then
           (let hexText = hexText @ ''0x'';
                hexText = hexText @ [hexData ! i];
                hexText = hexText @ [hexData ! (i + 1)];
                i = i + 2;
                hexText = (if i \<noteq> length hexData then hexText @ '', '' else hexText);
                hexText = (if i mod 32 = 0 then hexText @ [newline] else hexText)
            in hexText_loop_variant hexData i hexText)
         else Inl IndexError)
      else Inr hexText)"
  by pat_completeness auto
termination
  by (relation "measure (\<lambda>(hexData, i, hexText). length hexData - i)") auto

declare hexText_loop_variant.simps [simp del]

text \<open>
  The three passes from the bytes read to the text written:
  \<^verbatim>\<open>hexData = binascii.hexlify(binData).decode(); hexText = ""; i = 0; while ...\<close>.
\<close>

definition bin2hex_special :: "byte list \<Rightarrow> py_error + string" where
  "bin2hex_special binData = hexText_loop_special (hexlify binData) 0 ''''"

definition bin2hex_common :: "byte list \<Rightarrow> py_error + string" where
  "bin2hex_common binData = hexText_loop_common (hexlify binData) 0 ''''"

definition bin2hex_variant :: "byte list \<Rightarrow> py_error + string" where
  "bin2hex_variant binData = hexText_loop_variant (hexlify binData) 0 ''''"

subsection \<open>The layout of the output, and the decoder of the round trip\<close>

text \<open>
  One token per byte, and the piece of text the \<open>k\<close>-th of \<open>n\<close> bytes contributes:
  the token, the separator unless the byte is the last, the line break after every
  sixteenth byte.
\<close>

definition hex_token :: "byte \<Rightarrow> string" where
  "hex_token x = ''0x'' @ [hexdigit (unat x div 16), hexdigit (unat x mod 16)]"

definition hex_piece :: "nat \<Rightarrow> nat \<Rightarrow> byte \<Rightarrow> string" where
  "hex_piece n k x =
     hex_token x @ (if Suc k = n then [] else '', '')
       @ (if Suc k mod 16 = 0 then [newline] else [])"

fun render :: "nat \<Rightarrow> nat \<Rightarrow> byte list \<Rightarrow> string" where
  "render n k [] = []"
| "render n k (x # xs) = hex_piece n k x @ render n (Suc k) xs"

text \<open>Python's \<^verbatim>\<open>sep.join(parts)\<close>.\<close>

fun py_join :: "string \<Rightarrow> string list \<Rightarrow> string" where
  "py_join sep [] = []"
| "py_join sep [x] = x"
| "py_join sep (x # y # ys) = x @ sep @ py_join sep (y # ys)"

text \<open>
  The decoder of the round-trip property, as the specification words it: strip the
  \<open>0x\<close> prefixes, the commas, the spaces and the newlines, then read the remaining
  characters two by two as hexadecimal digits.
\<close>

fun strip_format :: "string \<Rightarrow> string" where
  "strip_format [] = []"
| "strip_format [c] = (if c = CHR '','' \<or> c = CHR '' '' \<or> c = newline then [] else [c])"
| "strip_format (c # d # cs) =
     (if c = CHR ''0'' \<and> d = CHR ''x'' then strip_format cs
      else if c = CHR '','' \<or> c = CHR '' '' \<or> c = newline then strip_format (d # cs)
      else c # strip_format (d # cs))"

definition hex_value :: "char \<Rightarrow> nat option" where
  "hex_value c =
     (let n = (of_char c :: nat) in
      if 48 \<le> n \<and> n \<le> 57 then Some (n - 48)
      else if 97 \<le> n \<and> n \<le> 102 then Some (n - 87)
      else None)"

fun read_pairs :: "string \<Rightarrow> byte list option" where
  "read_pairs [] = Some []"
| "read_pairs [c] = None"
| "read_pairs (c # d # cs) =
     (case (hex_value c, hex_value d, read_pairs cs) of
        (Some h, Some l, Some bs) \<Rightarrow> Some (of_nat (16 * h + l) # bs)
      | _ \<Rightarrow> None)"

definition hex_decode :: "string \<Rightarrow> byte list option" where
  "hex_decode text = read_pairs (strip_format text)"

section \<open>Python strings\<close>

text \<open>\<^verbatim>\<open>str.startswith\<close>, \<^verbatim>\<open>str.endswith\<close>, \<^verbatim>\<open>str.capitalize\<close> and
  \<^verbatim>\<open>str.split()\<close> (no argument: split on runs of whitespace, no empty pieces).\<close>

definition startswith :: "string \<Rightarrow> string \<Rightarrow> bool" where
  "startswith s p = (take (length p) s = p)"

definition endswith :: "string \<Rightarrow> string \<Rightarrow> bool" where
  "endswith s p = (length p \<le> length s \<and> drop (length s - length p) s = p)"

definition py_upper :: "char \<Rightarrow> char" where
  "py_upper c =
     (let n = (of_char c :: nat) in if 97 \<le> n \<and> n \<le> 122 then char_of (n - 32) else c)"

definition py_lower :: "char \<Rightarrow> char" where
  "py_lower c =
     (let n = (of_char c :: nat) in if 65 \<le> n \<and> n \<le> 90 then char_of (n + 32) else c)"

fun capitalize :: "string \<Rightarrow> string" where
  "capitalize [] = []"
| "capitalize (c # cs) = py_upper c # map py_lower cs"

text \<open>The characters \<^verbatim>\<open>str.isspace\<close> accepts among the code points below 256: tab to
  carriage return, the four separators \<open>0x1C\<close> to \<open>0x1F\<close>, the space, \<open>0x85\<close> and \<open>0xA0\<close>.\<close>

definition is_space :: "char \<Rightarrow> bool" where
  "is_space c =
     (let n = (of_char c :: nat)
      in (9 \<le> n \<and> n \<le> 13) \<or> (28 \<le> n \<and> n \<le> 32) \<or> n = 133 \<or> n = 160)"

fun split_words :: "string \<Rightarrow> string \<Rightarrow> string list" where
  "split_words [] cur = (if cur = [] then [] else [cur])"
| "split_words (c # cs) cur =
     (if is_space c then (if cur = [] then split_words cs [] else cur # split_words cs [])
      else split_words cs (cur @ [c]))"

definition py_split :: "string \<Rightarrow> string list" where
  "py_split s = split_words s []"

section \<open>The file system under the working root\<close>

text \<open>
  A directory is the list of its entries in listing order (the order
  \<^verbatim>\<open>os.listdir\<close> returns); an entry is a regular file with its bytes or a
  directory. The script addresses the working root and, one level down, the
  subdirectories \<open>gfx*\<close>; its paths are a plain name or \<open>dir/name\<close>.
\<close>

datatype node = File "byte list" | Dir "(string \<times> node) list"

type_synonym dir = "(string \<times> node) list"

definition names :: "dir \<Rightarrow> string list" where
  "names d = map fst d"

definition put_entry :: "string \<Rightarrow> node \<Rightarrow> dir \<Rightarrow> dir" where
  "put_entry f n d = map (\<lambda>e. if fst e = f then (f, n) else e) d"

text \<open>Operations on one directory, by plain name. Removing a directory with
  \<^verbatim>\<open>os.remove\<close> raises; so does opening a directory or the empty name.\<close>

definition dir_remove :: "string \<Rightarrow> dir \<Rightarrow> py_error + dir" where
  "dir_remove f d =
     (case map_of d f of
        None \<Rightarrow> Inl FileNotFoundError
      | Some (Dir sub) \<Rightarrow> Inl IsADirectoryError
      | Some (File b) \<Rightarrow> Inr (filter (\<lambda>e. fst e \<noteq> f) d))"

definition dir_write :: "byte list \<Rightarrow> string \<Rightarrow> dir \<Rightarrow> py_error + dir" where
  "dir_write b f d =
     (if f = [] then Inl FileNotFoundError
      else case map_of d f of
        None \<Rightarrow> Inr (d @ [(f, File b)])
      | Some (Dir sub) \<Rightarrow> Inl IsADirectoryError
      | Some (File old) \<Rightarrow> Inr (put_entry f (File b) d))"

definition dir_read :: "string \<Rightarrow> dir \<Rightarrow> py_error + byte list" where
  "dir_read f d =
     (case map_of d f of
        None \<Rightarrow> Inl FileNotFoundError
      | Some (Dir sub) \<Rightarrow> Inl IsADirectoryError
      | Some (File b) \<Rightarrow> Inr b)"

text \<open>Paths relative to the working root: \<open>name\<close>, or \<open>dir/name\<close> split at the first
  slash.\<close>

definition split_path :: "string \<Rightarrow> string option \<times> string" where
  "split_path p =
     (if CHR ''/'' \<in> set p
      then (Some (takeWhile (\<lambda>c. c \<noteq> CHR ''/'') p), tl (dropWhile (\<lambda>c. c \<noteq> CHR ''/'') p))
      else (None, p))"

definition at_path :: "(string \<Rightarrow> dir \<Rightarrow> py_error + dir) \<Rightarrow> string \<Rightarrow> dir \<Rightarrow> py_error + dir" where
  "at_path op p root =
     (case split_path p of
        (None, f) \<Rightarrow> op f root
      | (Some g, f) \<Rightarrow>
          (case map_of root g of
             None \<Rightarrow> Inl FileNotFoundError
           | Some (File b) \<Rightarrow> Inl NotADirectoryError
           | Some (Dir sub) \<Rightarrow>
               (case op f sub of
                  Inl e \<Rightarrow> Inl e
                | Inr sub' \<Rightarrow> Inr (put_entry g (Dir sub') root))))"

definition os_remove :: "string \<Rightarrow> dir \<Rightarrow> py_error + dir" where
  "os_remove p root = at_path dir_remove p root"

definition write_file :: "string \<Rightarrow> byte list \<Rightarrow> dir \<Rightarrow> py_error + dir" where
  "write_file p b root = at_path (dir_write b) p root"

definition read_file :: "string \<Rightarrow> dir \<Rightarrow> py_error + byte list" where
  "read_file p root =
     (case split_path p of
        (None, f) \<Rightarrow> dir_read f root
      | (Some g, f) \<Rightarrow>
          (case map_of root g of
             None \<Rightarrow> Inl FileNotFoundError
           | Some (File b) \<Rightarrow> Inl NotADirectoryError
           | Some (Dir sub) \<Rightarrow> dir_read f sub))"

text \<open>\<^verbatim>\<open>os.listdir(gfx)\<close> for a subdirectory of the root (\<^verbatim>\<open>os.listdir("./")\<close> is
  \<open>names\<close> of the root), and \<^verbatim>\<open>os.path.isdir(f)\<close> for an entry of the root.\<close>

definition os_listdir :: "string \<Rightarrow> dir \<Rightarrow> py_error + string list" where
  "os_listdir g root =
     (case map_of root g of
        None \<Rightarrow> Inl FileNotFoundError
      | Some (File b) \<Rightarrow> Inl NotADirectoryError
      | Some (Dir sub) \<Rightarrow> Inr (names sub))"

definition os_path_isdir :: "string \<Rightarrow> dir \<Rightarrow> bool" where
  "os_path_isdir f root = (case map_of root f of Some (Dir sub) \<Rightarrow> True | _ \<Rightarrow> False)"

text \<open>Text written through a file opened in text mode, as bytes (ASCII).\<close>

definition ascii_bytes :: "string \<Rightarrow> byte list" where
  "ascii_bytes s = map (\<lambda>c. of_nat (of_char c)) s"

text \<open>
  Well-formed directories, as every file system keeps them: the names of a directory
  are distinct, not empty and without a slash. The script reaches two levels.
\<close>

definition wf_dir :: "dir \<Rightarrow> bool" where
  "wf_dir d = (distinct (names d) \<and> list_all (\<lambda>f. f \<noteq> [] \<and> CHR ''/'' \<notin> set f) (names d))"

definition wf_root :: "dir \<Rightarrow> bool" where
  "wf_root root =
     (wf_dir root \<and> list_all (\<lambda>e. case snd e of Dir sub \<Rightarrow> wf_dir sub | File b \<Rightarrow> True) root)"

text \<open>The entries and the names of the root (\<open>None\<close>) or of a subdirectory of the root;
  the two components of a path.\<close>

definition entries_at :: "string option \<Rightarrow> dir \<Rightarrow> dir" where
  "entries_at k root =
     (case k of
        None \<Rightarrow> root
      | Some g \<Rightarrow> (case map_of root g of Some (Dir sub) \<Rightarrow> sub | _ \<Rightarrow> []))"

definition names_at :: "string option \<Rightarrow> dir \<Rightarrow> string list" where
  "names_at k root = names (entries_at k root)"

definition path_dir :: "string \<Rightarrow> string option" where
  "path_dir p = fst (split_path p)"

definition path_base :: "string \<Rightarrow> string" where
  "path_base p = snd (split_path p)"

definition good_names :: "string list \<Rightarrow> bool" where
  "good_names ns = (distinct ns \<and> (\<forall>f \<in> set ns. f \<noteq> [] \<and> CHR ''/'' \<notin> set f))"

section \<open>The environment of a run\<close>

text \<open>
  Modelled from the spec: the external assembler and linker and the two IR generator
  modules \<^verbatim>\<open>genGlslArithOpEmuCode\<close> and \<^verbatim>\<open>genGlslImageOpEmuCode\<close> are not part of
  the script. They are parameters of the model, with the invocation contract of the
  specification: a process invocation \<^verbatim>\<open>subprocess.call(cmd)\<close> or
  \<^verbatim>\<open>subprocess.call(cmd, shell = True)\<close> either raises (the process could not be
  started) or returns an exit status, and may have produced its one output file (the
  same-named \<open>.bc\<close> for the assembler, the \<open>-o=\<close> destination for the linker); a
  generator either raises or produces the text of its output file. What they do may
  depend on the command line and on the files present. The first three fields are
  \<^verbatim>\<open>sys.argv[1..3]\<close>.
\<close>

record env =
  LLVM_AS_DIR :: string
  LLVM_LINK_DIR :: string
  OS_TYPE :: string
  subprocess_call :: "string \<Rightarrow> bool \<Rightarrow> dir \<Rightarrow> py_error + int \<times> byte list option"
  genGlslArithOpEmuCode_main :: "string \<Rightarrow> string \<Rightarrow> string \<Rightarrow> dir \<Rightarrow> py_error + byte list"
  genGlslImageOpEmuCode_main :: "string \<Rightarrow> string \<Rightarrow> string \<Rightarrow> dir \<Rightarrow> py_error + byte list"

definition LLVM_AS :: "env \<Rightarrow> string" where
  "LLVM_AS env = LLVM_AS_DIR env @ ''llvm-as''"

definition LLVM_LINK :: "env \<Rightarrow> string" where
  "LLVM_LINK env = LLVM_LINK_DIR env @ ''llvm-link''"

section \<open>The state of a run\<close>

text \<open>
  The state is the tree under the working root and the trace of what the script did to
  the outside: the command lines it ran and the headers it wrote. A step returns the
  new state, or the exception together with the state in which it was raised.
\<close>

datatype event = Exec string | WriteHeader string

record state =
  fs :: dir
  trace :: "event list"

type_synonym result = "py_error \<times> state + state"

definition and_then :: "result \<Rightarrow> (state \<Rightarrow> result) \<Rightarrow> result" where
  "and_then r f = (case r of Inl e \<Rightarrow> Inl e | Inr st \<Rightarrow> f st)"

definition on_fs :: "(dir \<Rightarrow> py_error + dir) \<Rightarrow> state \<Rightarrow> result" where
  "on_fs op st = (case op (fs st) of Inl e \<Rightarrow> Inl (e, st) | Inr root \<Rightarrow> Inr (st\<lparr>fs := root\<rparr>))"

text \<open>The output file an external process leaves, if it produced one and could write
  it.\<close>

definition deposit :: "string \<Rightarrow> byte list option \<Rightarrow> dir \<Rightarrow> dir" where
  "deposit p out root =
     (case out of
        None \<Rightarrow> root
      | Some b \<Rightarrow> (case write_file p b root of Inl e \<Rightarrow> root | Inr root' \<Rightarrow> root'))"

text \<open>
  \<^verbatim>\<open>if OS_TYPE == "win": subprocess.call(cmd) else: subprocess.call(cmd, shell = True)\<close>.
  The value \<^verbatim>\<open>subprocess.call\<close> returns, the exit status, is dropped at every call
  site.
\<close>

definition call_tool :: "env \<Rightarrow> string \<Rightarrow> string \<Rightarrow> state \<Rightarrow> result" where
  "call_tool env cmd dest st =
     (case subprocess_call env cmd (OS_TYPE env \<noteq> ''win'') (fs st) of
        Inl e \<Rightarrow> Inl (e, st)
      | Inr (status, out) \<Rightarrow>
          Inr (st\<lparr>fs := deposit dest out (fs st), trace := trace st @ [Exec cmd]\<rparr>))"

definition bc_of :: "string \<Rightarrow> string" where
  "bc_of p = take (length p - 3) p @ ''.bc''"

definition run_generator ::
  "(string \<Rightarrow> string \<Rightarrow> string \<Rightarrow> dir \<Rightarrow> py_error + byte list) \<Rightarrow> string \<Rightarrow> string \<Rightarrow> string
     \<Rightarrow> state \<Rightarrow> result" where
  "run_generator main inFile outFile mode st =
     (case main inFile outFile mode (fs st) of
        Inl e \<Rightarrow> Inl (e, st)
      | Inr ir \<Rightarrow> on_fs (write_file outFile ir) st)"

section \<open>Pre-compile cleanup (lines 55--68)\<close>

definition is_generated :: "string \<Rightarrow> bool" where
  "is_generated f = (startswith f ''g_'' \<or> endswith f ''.bc'' \<or> endswith f ''.lib'')"

text \<open>The inner loop runs between \<^verbatim>\<open>os.chdir("./" + gfx)\<close> and
  \<^verbatim>\<open>os.chdir("./..")\<close>: its listing and its removals are those of the
  subdirectory.\<close>

fun clean_gfx :: "string list \<Rightarrow> dir \<Rightarrow> py_error \<times> dir + dir" where
  "clean_gfx [] sub = Inr sub"
| "clean_gfx (f # rest) sub =
     (if is_generated f
      then (case dir_remove f sub of
              Inl e \<Rightarrow> Inl (e, sub)
            | Inr sub' \<Rightarrow> clean_gfx rest sub')
      else clean_gfx rest sub)"

fun clean_loop :: "string list \<Rightarrow> state \<Rightarrow> result" where
  "clean_loop [] st = Inr st"
| "clean_loop (f # rest) st =
     (if is_generated f
      then and_then (on_fs (os_remove f) st) (clean_loop rest)
      else if os_path_isdir f (fs st) \<and> startswith f ''gfx''
      then (case map_of (fs st) f of
              Some (Dir sub) \<Rightarrow>
                (case clean_gfx (names sub) sub of
                   Inl (e, sub') \<Rightarrow> Inl (e, st\<lparr>fs := put_entry f (Dir sub') (fs st)\<rparr>)
                 | Inr sub' \<Rightarrow> clean_loop rest (st\<lparr>fs := put_entry f (Dir sub') (fs st)\<rparr>))
            | _ \<Rightarrow> Inl (NotADirectoryError, st))
      else clean_loop rest st)"

definition pre_compile_cleanup :: "state \<Rightarrow> result" where
  "pre_compile_cleanup st = clean_loop (names (fs st)) st"

section \<open>The common library (lines 80--192)\<close>

definition generate_arith :: "env \<Rightarrow> state \<Rightarrow> result" where
  "generate_arith env st =
     and_then
       (run_generator (genGlslArithOpEmuCode_main env)
          ''./script/genGlslArithOpEmuCode.txt'' ''g_glslArithOpEmu.ll'' ''std32'' st)
       (run_generator (genGlslArithOpEmuCode_main env)
          ''./script/genGlslArithOpEmuCodeF64.txt'' ''g_glslArithOpEmuF64.ll'' ''float64'')"

text \<open>Lines 89--96: assemble every \<open>.ll\<close> of the listing.\<close>

fun assemble_loop :: "env \<Rightarrow> string list \<Rightarrow> state \<Rightarrow> result" where
  "assemble_loop env [] st = Inr st"
| "assemble_loop env (f # rest) st =
     (if endswith f ''.ll''
      then and_then (call_tool env (LLVM_AS env @ '' '' @ f) (bc_of f) st) (assemble_loop env rest)
      else assemble_loop env rest st)"

text \<open>
  ``Convert .lib file to a hex file'': read the library, open the header for writing
  (which creates or empties it), run the encoder, write the text. The block stands
  three times in the script, each time with its own copy of the encoder loop.
\<close>

definition lib_to_hex ::
  "(byte list \<Rightarrow> py_error + string) \<Rightarrow> string \<Rightarrow> string \<Rightarrow> state \<Rightarrow> result" where
  "lib_to_hex bin2hex libFile hFile st =
     (case read_file libFile (fs st) of
        Inl e \<Rightarrow> Inl (e, st)
      | Inr binData \<Rightarrow>
          (case write_file hFile [] (fs st) of
             Inl e \<Rightarrow> Inl (e, st)
           | Inr opened \<Rightarrow>
               (case bin2hex binData of
                  Inl e \<Rightarrow> Inl (e, st\<lparr>fs := opened\<rparr>)
                | Inr hexText \<Rightarrow>
                    (case write_file hFile (ascii_bytes hexText) opened of
                       Inl e \<Rightarrow> Inl (e, st\<lparr>fs := opened\<rparr>)
                     | Inr written \<Rightarrow>
                         Inr (st\<lparr>fs := written, trace := trace st @ [WriteHeader hFile]\<rparr>)))))"

text \<open>Lines 99--146: the special libraries.\<close>

definition SPECIAL_EMUS :: "string list" where
  "SPECIAL_EMUS = [''NullFs'', ''CopyShader'']"

definition is_special_bc :: "string \<Rightarrow> string \<Rightarrow> bool" where
  "is_special_bc feature f = (startswith f (''glsl'' @ feature) \<and> endswith f ''Emu.bc'')"

fun search_bcFile :: "string \<Rightarrow> string list \<Rightarrow> string \<Rightarrow> string" where
  "search_bcFile feature [] bcFile = bcFile"
| "search_bcFile feature (f # rest) bcFile =
     search_bcFile feature rest (if is_special_bc feature f then f else bcFile)"

definition special_emu :: "env \<Rightarrow> string \<Rightarrow> state \<Rightarrow> result" where
  "special_emu env feature st =
     (let bcFile = search_bcFile feature (names (fs st)) '''' in
      if bcFile = '''' then Inr st
      else
        (let libFile = ''glsl'' @ feature @ ''Emu.lib'';
             cmd = LLVM_LINK env @ '' -o='' @ libFile @ '' '' @ bcFile;
             hFile = ''g_llpcGlsl'' @ feature @ ''EmuLib.h''
         in and_then (call_tool env cmd libFile st) (\<lambda>st.
            and_then (lib_to_hex bin2hex_special libFile hFile st) (\<lambda>st.
            and_then (on_fs (os_remove bcFile) st) (\<lambda>st.
            on_fs (os_remove libFile) st)))))"

fun special_emus :: "env \<Rightarrow> string list \<Rightarrow> state \<Rightarrow> result" where
  "special_emus env [] st = Inr st"
| "special_emus env (feature # rest) st =
     and_then (special_emu env feature st) (special_emus env rest)"

text \<open>Lines 150--192: the aggregate common library.\<close>

fun collect_bcFiles :: "string list \<Rightarrow> string \<Rightarrow> string" where
  "collect_bcFiles [] bcFiles = bcFiles"
| "collect_bcFiles (f # rest) bcFiles =
     collect_bcFiles rest (if endswith f ''.bc'' then bcFiles @ f @ '' '' else bcFiles)"

fun remove_loop :: "string list \<Rightarrow> state \<Rightarrow> result" where
  "remove_loop [] st = Inr st"
| "remove_loop (f # rest) st = and_then (on_fs (os_remove f) st) (remove_loop rest)"

definition common_emu :: "env \<Rightarrow> state \<Rightarrow> result" where
  "common_emu env st =
     (let bcFiles = collect_bcFiles (names (fs st)) '''';
          libFile = ''glslEmu.lib'';
          cmd = LLVM_LINK env @ '' -o='' @ libFile @ '' '' @ bcFiles;
          hFile = ''g_llpcGlslEmuLib.h''
      in and_then (call_tool env cmd libFile st) (\<lambda>st.
         and_then (lib_to_hex bin2hex_common libFile hFile st) (\<lambda>st.
         and_then (remove_loop (py_split bcFiles) st) (\<lambda>st.
         on_fs (os_remove libFile) st))))"

section \<open>The variant libraries (lines 201--267)\<close>

definition GFX_EMUS :: "string list" where
  "GFX_EMUS = [''gfx6'', ''gfx9'']"

definition gfx_generate :: "env \<Rightarrow> string \<Rightarrow> state \<Rightarrow> result" where
  "gfx_generate env gfx st =
     run_generator (genGlslImageOpEmuCode_main env)
       ''./script/genGlslImageOpEmuCode.txt'' (gfx @ ''/g_glslImageOpEmu.ll'') gfx st"

fun gfx_assemble_loop :: "env \<Rightarrow> string \<Rightarrow> string list \<Rightarrow> state \<Rightarrow> result" where
  "gfx_assemble_loop env gfx [] st = Inr st"
| "gfx_assemble_loop env gfx (f # rest) st =
     (if endswith f ''.ll''
      then and_then
             (call_tool env (LLVM_AS env @ '' '' @ gfx @ ''/'' @ f) (bc_of (gfx @ ''/'' @ f)) st)
             (gfx_assemble_loop env gfx rest)
      else gfx_assemble_loop env gfx rest st)"

definition gfx_assemble :: "env \<Rightarrow> string \<Rightarrow> state \<Rightarrow> result" where
  "gfx_assemble env gfx st =
     (case os_listdir gfx (fs st) of
        Inl e \<Rightarrow> Inl (e, st)
      | Inr listing \<Rightarrow> gfx_assemble_loop env gfx listing st)"

fun gfx_collect_bcFiles :: "string \<Rightarrow> string list \<Rightarrow> string \<Rightarrow> string" where
  "gfx_collect_bcFiles gfx [] bcFiles = bcFiles"
| "gfx_collect_bcFiles gfx (f # rest) bcFiles =
     gfx_collect_bcFiles gfx rest
       (if endswith f ''.bc'' then bcFiles @ gfx @ ''/'' @ f @ '' '' else bcFiles)"

definition gfx_package :: "env \<Rightarrow> string \<Rightarrow> state \<Rightarrow> result" where
  "gfx_package env gfx st =
     (case os_listdir gfx (fs st) of
        Inl e \<Rightarrow> Inl (e, st)
      | Inr listing \<Rightarrow>
          (let bcFiles = gfx_collect_bcFiles gfx listing '''';
               libFile = gfx @ ''/glslEmu'' @ capitalize gfx @ ''.lib'';
               cmd = LLVM_LINK env @ '' -o='' @ libFile @ '' '' @ bcFiles;
               hFile = gfx @ ''/g_llpcGlslEmuLib'' @ capitalize gfx @ ''.h''
           in and_then (call_tool env cmd libFile st) (\<lambda>st.
              and_then (lib_to_hex bin2hex_variant libFile hFile st) (\<lambda>st.
              and_then (remove_loop (py_split bcFiles) st) (\<lambda>st.
              on_fs (os_remove libFile) st)))))"

definition gfx_emu :: "env \<Rightarrow> string \<Rightarrow> state \<Rightarrow> result" where
  "gfx_emu env gfx st =
     and_then (gfx_generate env gfx st) (\<lambda>st.
     and_then (gfx_assemble env gfx st) (gfx_package env gfx))"

fun gfx_emus :: "env \<Rightarrow> string list \<Rightarrow> state \<Rightarrow> result" where
  "gfx_emus env [] st = Inr st"
| "gfx_emus env (gfx # rest) st = and_then (gfx_emu env gfx st) (gfx_emus env rest)"

section \<open>The whole script\<close>

definition common_library :: "env \<Rightarrow> state \<Rightarrow> result" where
  "common_library env st =
     and_then (generate_arith env st) (\<lambda>st.
     and_then (assemble_loop env (names (fs st)) st) (\<lambda>st.
     and_then (special_emus env SPECIAL_EMUS st) (common_emu env)))"

definition genGlslEmuLib :: "env \<Rightarrow> dir \<Rightarrow> result" where
  "genGlslEmuLib env root =
     and_then (pre_compile_cleanup \<lparr>fs = root, trace = []\<rparr>) (\<lambda>st.
     and_then (common_library env st) (gfx_emus env GFX_EMUS))"

section \<open>Auxiliary notions for the statements\<close>

text \<open>What the special stage does to the outside for one feature, given the listing of
  the working root: nothing if no object matches, else one link command on the last
  matching object and one header.\<close>

definition special_events :: "env \<Rightarrow> string \<Rightarrow> string list \<Rightarrow> event list" where
  "special_events env feature listing =
     (if filter (is_special_bc feature) listing = [] then []
      else [Exec (LLVM_LINK env @ '' -o=glsl'' @ feature @ ''Emu.lib '' @
                    last (filter (is_special_bc feature) listing)),
            WriteHeader (''g_llpcGlsl'' @ feature @ ''EmuLib.h'')])"

section \<open>A concrete environment and concrete trees\<close>

text \<open>
  An environment for running the model on examples: tools found on the search path, a
  non-Windows platform; the assembler fails with exit status 1 on
  \<open>g_glslArithOpEmuF64.ll\<close> and writes nothing, and succeeds on every other file; the
  linker succeeds; the generators produce one byte of text.
\<close>

definition demo_env :: env where
  "demo_env = \<lparr> LLVM_AS_DIR = '''', LLVM_LINK_DIR = '''', OS_TYPE = ''linux'',
     subprocess_call = (\<lambda>cmd shell root.
        if cmd = ''llvm-as g_glslArithOpEmuF64.ll'' then Inr (1, None)
        else if startswith cmd ''llvm-as'' then Inr (0, Some [0x42, 0x43])
        else Inr (0, Some [0xde, 0xad])),
     genGlslArithOpEmuCode_main = (\<lambda>inFile outFile mode root. Inr [1]),
     genGlslImageOpEmuCode_main = (\<lambda>inFile outFile mode root. Inr [2]) \<rparr>"

definition demo_objects :: state where
  "demo_objects = \<lparr> fs = [(''glslNullFsEmu.bc'', File [1]), (''glslArithOpEmu.bc'', File [3]),
     (''glslNullFsDebugEmu.bc'', File [2])], trace = [] \<rparr>"

definition demo_after_special :: state where
  "demo_after_special = \<lparr> fs = [(''glslNullFsEmu.bc'', File [1]),
       (''glslArithOpEmu.bc'', File [3]),
       (''g_llpcGlslNullFsEmuLib.h'', File (ascii_bytes ''0xde, 0xad''))],
     trace = [Exec ''llvm-link -o=glslNullFsEmu.lib glslNullFsDebugEmu.bc'',
       WriteHeader ''g_llpcGlslNullFsEmuLib.h''] \<rparr>"

definition demo_after_common :: state where
  "demo_after_common = \<lparr> fs = [(''g_llpcGlslNullFsEmuLib.h'', File (ascii_bytes ''0xde, 0xad'')),
       (''g_llpcGlslEmuLib.h'', File (ascii_bytes ''0xde, 0xad''))],
     trace = [Exec ''llvm-link -o=glslNullFsEmu.lib glslNullFsDebugEmu.bc'',
       WriteHeader ''g_llpcGlslNullFsEmuLib.h'',
       Exec ''llvm-link -o=glslEmu.lib glslNullFsEmu.bc glslArithOpEmu.bc '',
       WriteHeader ''g_llpcGlslEmuLib.h''] \<rparr>"

section \<open>What the cleanup leaves\<close>

text \<open>
  The tree a successful cleanup leaves: the entries of the root whose names are not
  those of generated artifacts, and inside each remaining subdirectory \<open>gfx*\<close> the same
  selection, one level deep. The cleanup can succeed only if every entry it has to
  remove is a regular file.
\<close>

definition keep_entries :: "dir \<Rightarrow> dir" where
  "keep_entries d = filter (\<lambda>e. \<not> is_generated (fst e)) d"

definition clean_entry :: "string \<times> node \<Rightarrow> string \<times> node" where
  "clean_entry e =
     (case snd e of
        Dir sub \<Rightarrow> if startswith (fst e) ''gfx'' then (fst e, Dir (keep_entries sub)) else e
      | File b \<Rightarrow> e)"

definition cleaned :: "dir \<Rightarrow> dir" where
  "cleaned root = map clean_entry (keep_entries root)"

definition is_file :: "node \<Rightarrow> bool" where
  "is_file n = (case n of File b \<Rightarrow> True | Dir sub \<Rightarrow> False)"

definition removable :: "dir \<Rightarrow> bool" where
  "removable d = list_all (\<lambda>e. is_generated (fst e) \<longrightarrow> is_file (snd e)) d"

definition cleanable :: "dir \<Rightarrow> bool" where
  "cleanable root =
     list_all (\<lambda>e.
       if is_generated (fst e) then is_file (snd e)
       else (case snd e of
               Dir sub \<Rightarrow> startswith (fst e) ''gfx'' \<longrightarrow> removable sub
             | File b \<Rightarrow> True)) root"

definition nothing_generated :: "dir \<Rightarrow> bool" where
  "nothing_generated root =
     list_all (\<lambda>e.
       \<not> is_generated (fst e)
       \<and> (case snd e of
             Dir sub \<Rightarrow> startswith (fst e) ''gfx'' \<longrightarrow> list_all (\<lambda>e. \<not> is_generated (fst e)) sub
           | File b \<Rightarrow> True)) root"

definition demo_tree :: dir where
  "demo_tree =
     [(''script'', Dir [(''g_notes.txt'', File [7])]),
      (''g_llpcGlslEmuLib.h'', File [9]),
      (''stale.bc'', File [1]),
      (''old.lib'', File [2]),
      (''glslNullFsEmu.ll'', File [3]),
      (''gfx6'', Dir [(''g_llpcGlslEmuLibGfx6.h'', File []), (''keep.ll'', File [4]),
         (''x.bc'', File [5]), (''deep'', Dir [(''y.bc'', File [6])])]),
      (''gfx9'', Dir [])]"

definition demo_tree_cleaned :: dir where
  "demo_tree_cleaned =
     [(''script'', Dir [(''g_notes.txt'', File [7])]),
      (''glslNullFsEmu.ll'', File [3]),
      (''gfx6'', Dir [(''keep.ll'', File [4]), (''deep'', Dir [(''y.bc'', File [6])])]),
      (''gfx9'', Dir [])]"

text \<open>The same environment with every exit status replaced: \<open>g\<close> chooses the status
  from the command, the tree and the status the process returned.\<close>

definition with_status :: "(string \<Rightarrow> bool \<Rightarrow> dir \<Rightarrow> int \<Rightarrow> int) \<Rightarrow> env \<Rightarrow> env" where
  "with_status g env =
     env\<lparr>subprocess_call := \<lambda>cmd shell root.
       (case subprocess_call env cmd shell root of
          Inl e \<Rightarrow> Inl e
        | Inr (status, out) \<Rightarrow> Inr (g cmd shell root status, out))\<rparr>"

text \<open>An environment whose linker fails with exit status 1 and leaves no library, and
  whose other processes cannot be started.\<close>

definition demo_env_broken :: env where
  "demo_env_broken = \<lparr> LLVM_AS_DIR = '''', LLVM_LINK_DIR = '''', OS_TYPE = ''linux'',
     subprocess_call = (\<lambda>cmd shell root.
        if startswith cmd ''llvm-link'' then Inr (1, None) else Inl OSError),
     genGlslArithOpEmuCode_main = (\<lambda>inFile outFile mode root. Inr [1]),
     genGlslImageOpEmuCode_main = (\<lambda>inFile outFile mode root. Inr [2]) \<rparr>"

text \<open>The state in which the run in \<open>demo_env\<close> on \<open>demo_tree\<close> ends.\<close>

definition demo_final :: state where
  "demo_final =
     \<lparr>fs = [(''script'', Dir [(''g_notes.txt'', File [7])]),
            (''glslNullFsEmu.ll'', File [3]),
            (''gfx6'',
             Dir [(''keep.ll'', File [4]),
                  (''deep'', Dir [(''y.bc'', File [6])]),
                  (''g_glslImageOpEmu.ll'', File [2]),
                  (''g_llpcGlslEmuLibGfx6.h'', File (ascii_bytes ''0xde, 0xad''))]),
            (''gfx9'',
             Dir [(''g_glslImageOpEmu.ll'', File [2]),
                  (''g_llpcGlslEmuLibGfx9.h'', File (ascii_bytes ''0xde, 0xad''))]),
            (''g_glslArithOpEmu.ll'', File [1]),
            (''g_glslArithOpEmuF64.ll'', File [1]),
            (''g_llpcGlslNullFsEmuLib.h'', File (ascii_bytes ''0xde, 0xad'')),
            (''g_llpcGlslEmuLib.h'', File (ascii_bytes ''0xde, 0xad''))],
      trace =
          [Exec ''llvm-as glslNullFsEmu.ll'',
           Exec ''llvm-as g_glslArithOpEmu.ll'',
           Exec ''llvm-as g_glslArithOpEmuF64.ll'',
           Exec ''llvm-link -o=glslNullFsEmu.lib glslNullFsEmu.bc'',
           WriteHeader ''g_llpcGlslNullFsEmuLib.h'',
           Exec ''llvm-link -o=glslEmu.lib g_glslArithOpEmu.bc '',
           WriteHeader ''g_llpcGlslEmuLib.h'',
           Exec ''llvm-as gfx6/keep.ll'',
           Exec ''llvm-as gfx6/g_glslImageOpEmu.ll'',
           Exec ''llvm-link -o=gfx6/glslEmuGfx6.lib gfx6/keep.bc gfx6/g_glslImageOpEmu.bc '',
           WriteHeader ''gfx6/g_llpcGlslEmuLibGfx6.h'',
           Exec ''llvm-as gfx9/g_glslImageOpEmu.ll'',
           Exec ''llvm-link -o=gfx9/glslEmuGfx9.lib gfx9/g_glslImageOpEmu.bc '',
           WriteHeader ''gfx9/g_llpcGlslEmuLibGfx9.h'']\<rparr>"





section \<open>Properties of the hex encoder\<close>

subsection \<open>The three loops compute one function\<close>

lemma special_loop_eq_common:
  "hexText_loop_special hexData i hexText = hexText_loop_common hexData i hexText"
proof (induction hexData i hexText rule: hexText_loop_common.induct)
  case (1 hexData i hexText)
  show ?case
    apply (subst hexText_loop_special.simps)
    apply (subst hexText_loop_common.simps)
    using 1 apply (simp add: Let_def)
    done
qed

lemma variant_loop_eq_common:
  "hexText_loop_variant hexData i hexText = hexText_loop_common hexData i hexText"
proof (induction hexData i hexText rule: hexText_loop_common.induct)
  case (1 hexData i hexText)
  show ?case
    apply (subst hexText_loop_variant.simps)
    apply (subst hexText_loop_common.simps)
    using 1 apply (simp add: Let_def)
    done
qed

lemma bin2hex_special_eq: "bin2hex_special binData = bin2hex_common binData"
  by (simp add: bin2hex_special_def bin2hex_common_def special_loop_eq_common)

lemma bin2hex_variant_eq: "bin2hex_variant binData = bin2hex_common binData"
  by (simp add: bin2hex_variant_def bin2hex_common_def variant_loop_eq_common)

subsection \<open>The loop renders one piece per byte\<close>

lemma length_hexlify: "length (hexlify b) = 2 * length b"
  by (induction b) (simp_all add: hexlify_def)

lemma hexlify_Cons:
  "hexlify (x # xs) = hexdigit (unat x div 16) # hexdigit (unat x mod 16) # hexlify xs"
  by (simp add: hexlify_def)

lemma hexlify_nth:
  "k < length b \<Longrightarrow> hexlify b ! (2 * k) = hexdigit (unat (b ! k) div 16)
     \<and> hexlify b ! Suc (2 * k) = hexdigit (unat (b ! k) mod 16)"
proof (induction b arbitrary: k)
  case Nil
  then show ?case by simp
next
  case (Cons x xs)
  show ?case
  proof (cases k)
    case 0
    then show ?thesis by (simp add: hexlify_Cons)
  next
    case (Suc j)
    with Cons show ?thesis by (simp add: hexlify_Cons)
  qed
qed

lemma render_drop:
  "k < length b \<Longrightarrow>
     render n k (drop k b) = hex_piece n k (b ! k) @ render n (Suc k) (drop (Suc k) b)"
  by (simp add: Cons_nth_drop_Suc [symmetric])

lemma hexText_loop_common_step:
  "Suc i < length hexData \<Longrightarrow>
     hexText_loop_common hexData i hexText =
       hexText_loop_common hexData (i + 2)
         (hexText @ ''0x'' @ [hexData ! i, hexData ! Suc i]
            @ (if i + 2 \<noteq> length hexData then '', '' else [])
            @ (if (i + 2) mod 32 = 0 then [newline] else []))"
  by (subst hexText_loop_common.simps) (simp add: Let_def)

lemma hexText_loop_common_stop:
  "length hexData \<le> i \<Longrightarrow> hexText_loop_common hexData i hexText = Inr hexText"
  by (subst hexText_loop_common.simps) simp

lemma hexText_loop_common_render:
  "k \<le> length b \<Longrightarrow>
     hexText_loop_common (hexlify b) (2 * k) acc = Inr (acc @ render (length b) k (drop k b))"
proof (induction "length b - k" arbitrary: k acc)
  case 0
  then have "k = length b" by simp
  then show ?case
    by (simp add: hexText_loop_common_stop length_hexlify)
next
  case (Suc m)
  then have lt: "k < length b" by simp
  have a: "m = length b - Suc k" using Suc.hyps(2) by simp
  have b: "Suc k \<le> length b" using lt by simp
  have m32: "(2 * k + 2) mod 32 = 0 \<longleftrightarrow> Suc k mod 16 = 0"
    by presburger
  have ne: "2 * k + 2 \<noteq> 2 * length b \<longleftrightarrow> Suc k \<noteq> length b"
    by presburger
  have lt2: "Suc (2 * k) < length (hexlify b)"
    using lt by (simp add: length_hexlify)
  have piece: "''0x'' @ [hexlify b ! (2 * k), hexlify b ! Suc (2 * k)]
            @ (if 2 * k + 2 \<noteq> length (hexlify b) then '', '' else [])
            @ (if (2 * k + 2) mod 32 = 0 then [newline] else []) = hex_piece (length b) k (b ! k)"
    unfolding length_hexlify m32 ne using hexlify_nth [OF lt]
    by (simp add: hex_piece_def hex_token_def)
  have "hexText_loop_common (hexlify b) (2 * k) acc
      = hexText_loop_common (hexlify b) (2 * Suc k) (acc @ hex_piece (length b) k (b ! k))"
    unfolding hexText_loop_common_step [OF lt2] piece by simp
  also have "\<dots> = Inr ((acc @ hex_piece (length b) k (b ! k))
      @ render (length b) (Suc k) (drop (Suc k) b))"
    by (rule Suc.hyps(1) [OF a b])
  finally show ?case
    by (simp add: render_drop [OF lt])
qed

lemma bin2hex_common_render: "bin2hex_common b = Inr (render (length b) 0 b)"
  using hexText_loop_common_render [of 0 b "[]"] by (simp add: bin2hex_common_def)

lemma render_concat:
  "render n k xs = concat (map (\<lambda>j. hex_piece n (k + j) (xs ! j)) [0..<length xs])"
proof (induction xs arbitrary: k)
  case Nil
  show ?case by simp
next
  case (Cons x xs)
  have "[0..<length (x # xs)] = 0 # map Suc [0..<length xs]"
    by (simp add: upt_conv_Cons map_Suc_upt del: upt_Suc)
  then show ?case
    by (simp add: Cons.IH comp_def del: upt_Suc)
qed

subsection \<open>Digits, tokens and separators\<close>

lemma all_below_16:
  "(\<forall>n<16. P (n::nat)) \<longleftrightarrow> (\<forall>n \<in> set [0..<16]. P n)"
  by auto

lemma hexdigit_cases:
  "n < 16 \<Longrightarrow> hexdigit n \<in> set ''0123456789abcdef'' \<and> hex_value (hexdigit n) = Some n"
proof -
  have "\<forall>n<16. hexdigit n \<in> set ''0123456789abcdef'' \<and> hex_value (hexdigit n) = Some n"
    unfolding all_below_16 by code_simp
  then show "n < 16 \<Longrightarrow> ?thesis" by blast
qed

lemma hexdigit_plain:
  assumes "n < 16"
  shows "hexdigit n \<noteq> CHR ''x''" "hexdigit n \<noteq> CHR '',''" "hexdigit n \<noteq> CHR '' ''"
    "hexdigit n \<noteq> newline"
  using hexdigit_cases [OF assms] by (auto simp: newline_def)

lemma byte_nibbles: "unat (x :: byte) div 16 < 16" "unat x mod 16 < 16"
proof -
  have "unat x < 2 ^ LENGTH(8)"
    by (rule unsigned_less)
  then show "unat x div 16 < 16" by simp
  show "unat x mod 16 < 16" by simp
qed

lemma newline_notin_token: "newline \<notin> set (hex_token x)"
  using hexdigit_plain(4) [OF byte_nibbles(1) [of x]] hexdigit_plain(4) [OF byte_nibbles(2) [of x]]
  by (auto simp: hex_token_def newline_def)

lemma filter_newline_token: "filter (\<lambda>c. c \<noteq> newline) (hex_token x) = hex_token x"
  using newline_notin_token [of x] by (auto simp: filter_id_conv)

lemma filter_newline_piece:
  "filter (\<lambda>c. c \<noteq> newline) (hex_piece n k x) = hex_token x @ (if Suc k = n then [] else '', '')"
  by (simp add: hex_piece_def filter_newline_token) (simp add: newline_def)

lemma filter_newline_render:
  "k + length xs = n \<Longrightarrow>
     filter (\<lambda>c. c \<noteq> newline) (render n k xs) = py_join '', '' (map hex_token xs)"
proof (induction xs arbitrary: k)
  case Nil
  show ?case by simp
next
  case (Cons x xs)
  show ?case
  proof (cases xs)
    case Nil
    with Cons.prems show ?thesis
      by (simp add: filter_newline_piece)
  next
    case (Cons y ys)
    with Cons.prems have mid: "Suc k \<noteq> n" by simp
    have "filter (\<lambda>c. c \<noteq> newline) (render n (Suc k) xs) = py_join '', '' (map hex_token xs)"
      using Cons.prems by (intro Cons.IH) simp
    then show ?thesis
      using mid by (simp add: filter_newline_piece Cons)
  qed
qed

subsection \<open>Decoding the rendered text\<close>

lemma read_pairs_hexlify: "read_pairs (hexlify b) = Some b"
proof (induction b)
  case Nil
  show ?case by (simp add: hexlify_def)
next
  case (Cons x xs)
  have h: "hex_value (hexdigit (unat x div 16)) = Some (unat x div 16)"
    by (rule hexdigit_cases [THEN conjunct2]) (rule byte_nibbles)
  have l: "hex_value (hexdigit (unat x mod 16)) = Some (unat x mod 16)"
    by (rule hexdigit_cases [THEN conjunct2]) (rule byte_nibbles)
  have "of_nat (16 * (unat x div 16) + unat x mod 16) = x"
    by simp
  with Cons h l show ?case
    by (simp add: hexlify_Cons)
qed

lemma strip_format_sep:
  "c = CHR '','' \<or> c = CHR '' '' \<or> c = newline \<Longrightarrow> strip_format (c # r) = strip_format r"
  by (cases r) (auto simp: newline_def)

lemma strip_format_0x: "strip_format (CHR ''0'' # CHR ''x'' # r) = strip_format r"
  by simp

lemma strip_format_keep:
  "c \<noteq> CHR '','' \<Longrightarrow> c \<noteq> CHR '' '' \<Longrightarrow> c \<noteq> newline \<Longrightarrow>
   r = [] \<or> hd r \<noteq> CHR ''x'' \<Longrightarrow> strip_format (c # r) = c # strip_format r"
  by (cases r) auto

lemma strip_format_piece_mid:
  assumes "h \<noteq> CHR '',''" "h \<noteq> CHR '' ''" "h \<noteq> newline"
    and "l \<noteq> CHR ''x''" "l \<noteq> CHR '',''" "l \<noteq> CHR '' ''" "l \<noteq> newline"
  shows "strip_format (''0x'' @ [h, l] @ '', '' @ r) = h # l # strip_format r"
    and "strip_format (''0x'' @ [h, l] @ '', '' @ [newline] @ r) = h # l # strip_format r"
  using assms
  by (simp_all add: strip_format_0x strip_format_keep strip_format_sep del: strip_format.simps)

lemma strip_format_piece_last:
  assumes "h \<noteq> CHR '',''" "h \<noteq> CHR '' ''" "h \<noteq> newline"
    and "l \<noteq> CHR ''x''" "l \<noteq> CHR '',''" "l \<noteq> CHR '' ''" "l \<noteq> newline"
  shows "strip_format (''0x'' @ [h, l]) = [h, l]"
    and "strip_format (''0x'' @ [h, l] @ [newline]) = [h, l]"
  using assms
  by (simp_all add: strip_format_0x strip_format_keep strip_format_sep newline_def
      del: strip_format.simps(3))

lemma strip_format_render:
  "k + length xs = n \<Longrightarrow> strip_format (render n k xs) = hexlify xs"
proof (induction xs arbitrary: k)
  case Nil
  show ?case by (simp add: hexlify_def)
next
  case (Cons x xs)
  note h = hexdigit_plain [OF byte_nibbles(1) [of x]]
  note l = hexdigit_plain [OF byte_nibbles(2) [of x]]
  show ?case
  proof (cases xs)
    case Nil
    with Cons.prems have last: "Suc k = n" by simp
    show ?thesis
      using strip_format_piece_last [OF h(2,3,4) l]
      by (simp add: Nil last hex_piece_def hex_token_def hexlify_def del: strip_format.simps)
  next
    case (Cons y ys)
    with Cons.prems have mid: "Suc k \<noteq> n" by simp
    have ih: "strip_format (render n (Suc k) xs) = hexlify xs"
      using Cons.prems by (intro Cons.IH) simp
    show ?thesis
      using strip_format_piece_mid [OF h(2,3,4) l, of "render n (Suc k) xs"] ih
      by (simp add: mid hex_piece_def hex_token_def hexlify_Cons del: strip_format.simps)
  qed
qed

subsection \<open>Line breaks\<close>

lemma count_newline_piece:
  "count_list (hex_piece n k x) newline = (if Suc k mod 16 = 0 then 1 else 0)"
  using hexdigit_plain(4) [OF byte_nibbles(1) [of x]] hexdigit_plain(4) [OF byte_nibbles(2) [of x]]
  by (simp add: hex_piece_def hex_token_def newline_def)

lemma count_list_append: "count_list (xs @ ys) a = count_list xs a + count_list ys a"
  by (induction xs) simp_all

lemma count_newline_render:
  "count_list (render n k xs) newline = (k + length xs) div 16 - k div 16"
proof (induction xs arbitrary: k)
  case Nil
  show ?case by simp
next
  case (Cons x xs)
  have mono: "Suc k div 16 \<le> (Suc k + length xs) div 16"
    by (rule div_le_mono) simp
  have "count_list (render n k (x # xs)) newline
      = (if Suc k mod 16 = 0 then 1 else 0) + ((Suc k + length xs) div 16 - Suc k div 16)"
    by (simp add: count_list_append count_newline_piece Cons.IH)
  also have "\<dots> = (Suc k + length xs) div 16 - k div 16"
    using mono by (simp add: div_Suc)
  finally show ?case by simp
qed

subsection \<open>Where the line breaks stand\<close>

lemma split_after_clean_prefix:
  "c \<notin> set a \<Longrightarrow> a @ b = u @ c # v \<Longrightarrow> \<exists>w. u = a @ w \<and> b = w @ c # v"
proof (induction a arbitrary: u)
  case Nil
  then show ?case by simp
next
  case (Cons y ys)
  then show ?case
    by (cases u) auto
qed

lemma piece_newline_split:
  assumes "hex_piece n k x = u @ newline # v"
  shows "v = [] \<and> u = hex_token x @ (if Suc k = n then [] else '', '') \<and> Suc k mod 16 = 0"
proof -
  let ?a = "hex_token x @ (if Suc k = n then [] else '', '')"
  let ?b = "if Suc k mod 16 = 0 then [newline] else []"
  have clean: "newline \<notin> set ?a"
    using newline_notin_token [of x] by (simp add: newline_def)
  have "?a @ ?b = u @ newline # v"
    using assms by (simp add: hex_piece_def)
  from split_after_clean_prefix [OF clean this]
  obtain w where w: "u = ?a @ w" "?b = w @ newline # v"
    by blast
  from w(2) have "Suc k mod 16 = 0 \<and> w = [] \<and> v = []"
    by (cases "Suc k mod 16 = 0") (auto simp: Cons_eq_append_conv)
  with w(1) show ?thesis by simp
qed

lemma render_not_newline_first: "render n k xs \<noteq> newline # v"
  by (cases xs) (simp_all add: hex_piece_def hex_token_def newline_def)

lemma render_newline_position:
  "render n k xs = u @ newline # v \<Longrightarrow> k + length xs = n \<Longrightarrow>
     (\<exists>w. u = w @ '', '')
     \<or> (v = [] \<and> n mod 16 = 0 \<and> xs \<noteq> [] \<and> (\<exists>w. u = w @ hex_token (last xs)))"
proof (induction xs arbitrary: k u)
  case Nil
  then show ?case by simp
next
  case (Cons x xs)
  let ?P = "hex_piece n k x"
  let ?R = "render n (Suc k) xs"
  from Cons.prems(2) have len: "Suc k + length xs = n" by simp
  from Cons.prems(1) have "?P @ ?R = u @ newline # v" by simp
  then obtain us where "(?P = u @ us \<and> us @ ?R = newline # v) \<or> (?P @ us = u \<and> ?R = us @ newline # v)"
    unfolding append_eq_append_conv2 by blast
  then show ?case
  proof
    assume A: "?P = u @ us \<and> us @ ?R = newline # v"
    show ?thesis
    proof (cases us)
      case Nil
      with A have "?R = newline # v" by simp
      with render_not_newline_first show ?thesis by blast
    next
      case (Cons c us')
      with A have c: "c = newline" and v: "v = us' @ ?R" and P: "?P = u @ newline # us'"
        by simp_all
      from piece_newline_split [OF P]
      have s: "us' = []" "u = hex_token x @ (if Suc k = n then [] else '', '')" "Suc k mod 16 = 0"
        by simp_all
      show ?thesis
      proof (cases "Suc k = n")
        case True
        with len have "length xs = 0" by linarith
        then have "xs = []" by simp
        with s v True show ?thesis by simp
      next
        case False
        with s(2) have "u = hex_token x @ '', ''" by simp
        then show ?thesis by blast
      qed
    qed
  next
    assume B: "?P @ us = u \<and> ?R = us @ newline # v"
    then have R: "?R = us @ newline # v" and u: "u = ?P @ us" by simp_all
    from Cons.IH [OF R len] show ?thesis
    proof
      assume "\<exists>w. us = w @ '', ''"
      then obtain w where "us = w @ '', ''" ..
      with u have "u = (?P @ w) @ '', ''" by simp
      then show ?thesis by blast
    next
      assume "v = [] \<and> n mod 16 = 0 \<and> xs \<noteq> [] \<and> (\<exists>w. us = w @ hex_token (last xs))"
      then obtain w where w: "v = []" "n mod 16 = 0" "xs \<noteq> []" "us = w @ hex_token (last xs)"
        by (elim conjE exE)
      with u have "u = (?P @ w) @ hex_token (last (x # xs))" by simp
      then have "\<exists>w. u = w @ hex_token (last (x # xs))" ..
      with w(1,2) show ?thesis by simp
    qed
  qed
qed

lemma ceil16_minus_1:
  assumes "n mod 16 \<noteq> 0"
  shows "(n + 15) div 16 - 1 = (n::nat) div 16"
proof -
  define r where "r = n mod 16"
  define q where "q = n div 16"
  have n: "n = 16 * q + r" by (simp add: q_def r_def)
  have r: "0 < r" "r < 16" using assms by (simp_all add: r_def)
  have "n + 15 = (r - 1) + (q + 1) * 16" using n r by simp
  then have "(n + 15) div 16 = ((r - 1) + (q + 1) * 16) div 16" by simp
  also have "\<dots> = (r - 1) div 16 + (q + 1)" by simp
  also have "(r - 1) div 16 = 0" using r by simp
  finally show ?thesis by (simp add: q_def)
qed


lemma render_snoc:
  "render n k (xs @ [x]) = render n k xs @ hex_piece n (k + length xs) x"
  by (induction xs arbitrary: k) simp_all

lemma render_end:
  "if length b mod 16 = 0 \<and> b \<noteq> []
   then \<exists>w. render (length b) 0 b = w @ hex_token (last b) @ [newline]
   else render (length b) 0 b = [] \<or> last (render (length b) 0 b) \<noteq> newline"
proof (cases "b = []")
  case True
  then show ?thesis by simp
next
  case False
  then have b: "butlast b @ [last b] = b"
    by simp
  have len: "Suc (length b - Suc 0) = length b"
    using False by (cases b) simp_all
  have "render (length b) 0 (butlast b @ [last b])
      = render (length b) 0 (butlast b) @ hex_piece (length b) (length (butlast b)) (last b)"
    by (simp add: render_snoc)
  then have r: "render (length b) 0 b
      = render (length b) 0 (butlast b) @ hex_token (last b)
          @ (if length b mod 16 = 0 then [newline] else [])"
    unfolding b by (simp add: hex_piece_def len)
  show ?thesis
  proof (cases "length b mod 16 = 0")
    case True
    with r have "render (length b) 0 b
        = render (length b) 0 (butlast b) @ hex_token (last b) @ [newline]"
      by simp
    then have "\<exists>w. render (length b) 0 b = w @ hex_token (last b) @ [newline]" ..
    with True False show ?thesis by simp
  next
    case nz: False
    have t: "hex_token (last b) \<noteq> []"
      by (simp add: hex_token_def)
    from r nz have "render (length b) 0 b = render (length b) 0 (butlast b) @ hex_token (last b)"
      by simp
    then have "last (render (length b) 0 b) = last (hex_token (last b))"
      using t by simp
    moreover have "last (hex_token (last b)) \<in> set (hex_token (last b))"
      using t by (rule last_in_set)
    ultimately have "last (render (length b) 0 b) \<noteq> newline"
      using newline_notin_token [of "last b"] by metis
    with nz show ?thesis by simp
  qed
qed

section \<open>Claims about the hex encoder\<close>

text \<open>
  C9. The three inlined binary-to-hex passes (special-feature, common-library and
  per-variant packaging) compute the same function: the three loops agree from every
  loop state, and so the three passes produce identical text for every byte sequence.
\<close>

theorem bin2hex_passes_agree:
  "hexText_loop_special hexData i hexText = hexText_loop_common hexData i hexText
   \<and> hexText_loop_variant hexData i hexText = hexText_loop_common hexData i hexText
   \<and> bin2hex_special binData = bin2hex_common binData
   \<and> bin2hex_variant binData = bin2hex_common binData"
  by (simp add: special_loop_eq_common variant_loop_eq_common bin2hex_special_eq
      bin2hex_variant_eq)

text \<open>
  C4. The encoder never fails on the output of \<open>hexlify\<close>. Its text is one piece per
  byte, in order: \<open>0x\<close> and the two lowercase hexadecimal digits of the byte (high
  nibble first, each digit denoting its nibble), then \<open>, \<close> unless the byte is the last,
  then the line break of every sixteenth byte. With the line breaks taken out the text
  is the tokens joined by \<open>, \<close>; the empty input gives the empty string.
\<close>

theorem bin2hex_special_layout:
  "bin2hex_special binData =
     Inr (concat (map (\<lambda>k.
       ''0x'' @ [hexdigit (unat (binData ! k) div 16), hexdigit (unat (binData ! k) mod 16)]
         @ (if Suc k = length binData then [] else '', '')
         @ (if Suc k mod 16 = 0 then [newline] else [])) [0..<length binData]))
   \<and> map_sum id (filter (\<lambda>c. c \<noteq> newline)) (bin2hex_special binData) =
       Inr (py_join '', '' (map (\<lambda>x.
         ''0x'' @ [hexdigit (unat x div 16), hexdigit (unat x mod 16)]) binData))
   \<and> hex_value (hexdigit (unat (x :: byte) div 16)) = Some (unat x div 16)
   \<and> hex_value (hexdigit (unat x mod 16)) = Some (unat x mod 16)
   \<and> bin2hex_special [] = Inr ''''"
proof -
  have r: "bin2hex_special binData = Inr (render (length binData) 0 binData)" for binData
    by (simp add: bin2hex_special_eq bin2hex_common_render)
  have 1: "render (length binData) 0 binData = concat (map (\<lambda>k.
       ''0x'' @ [hexdigit (unat (binData ! k) div 16), hexdigit (unat (binData ! k) mod 16)]
         @ (if Suc k = length binData then [] else '', '')
         @ (if Suc k mod 16 = 0 then [newline] else [])) [0..<length binData])"
    by (simp add: render_concat hex_piece_def hex_token_def)
  have 2: "filter (\<lambda>c. c \<noteq> newline) (render (length binData) 0 binData) =
       py_join '', '' (map (\<lambda>x.
         ''0x'' @ [hexdigit (unat x div 16), hexdigit (unat x mod 16)]) binData)"
    using filter_newline_render [of 0 binData "length binData"]
    by (simp add: hex_token_def [abs_def])
  have 3: "hex_value (hexdigit (unat x div 16)) = Some (unat x div 16)"
    by (rule hexdigit_cases [THEN conjunct2]) (rule byte_nibbles)
  have 4: "hex_value (hexdigit (unat x mod 16)) = Some (unat x mod 16)"
    by (rule hexdigit_cases [THEN conjunct2]) (rule byte_nibbles)
  have 5: "bin2hex_special [] = Inr ''''"
    by (simp add: r)
  have 6: "map_sum id (filter (\<lambda>c. c \<noteq> newline)) (bin2hex_special binData) =
       Inr (py_join '', '' (map (\<lambda>x.
         ''0x'' @ [hexdigit (unat x div 16), hexdigit (unat x mod 16)]) binData))"
    unfolding r [of binData] using 2 by simp
  have 7: "bin2hex_special binData =
     Inr (concat (map (\<lambda>k.
       ''0x'' @ [hexdigit (unat (binData ! k) div 16), hexdigit (unat (binData ! k) mod 16)]
         @ (if Suc k = length binData then [] else '', '')
         @ (if Suc k mod 16 = 0 then [newline] else [])) [0..<length binData]))"
    unfolding r [of binData] using 1 by (rule arg_cong)
  from 7 6 3 4 5 show ?thesis
    by (intro conjI)
qed

text \<open>
  C1. Hex round trip: for every byte sequence, the empty one included, the encoder
  returns a text, and decoding that text (strip the \<open>0x\<close> prefixes, the commas, the
  spaces and the newlines, read the two-digit tokens in order) gives the bytes back.
\<close>

theorem hex_round_trip:
  "\<exists>text. bin2hex_common b = Inr text \<and> hex_decode text = Some b"
  using strip_format_render [of 0 b "length b"]
  by (simp add: bin2hex_common_render hex_decode_def read_pairs_hexlify)

text \<open>
  C2, as stated, fails: for sixteen bytes (any positive multiple of sixteen) the loop
  appends a line break after the last token too, so the text has one newline where
  \<open>ceil(n/16) - 1\<close> is zero, and that newline follows a token, not a separator.
\<close>

theorem line_wrap_counterexample:
  "bin2hex_common (replicate 16 0) =
     Inr (concat (replicate 15 ''0x00, '') @ ''0x00'' @ [newline])
   \<and> count_list (concat (replicate 15 ''0x00, '') @ ''0x00'' @ [newline]) newline = 1
   \<and> (length (replicate 16 (0 :: byte)) + 15) div 16 - 1 = 0"
  by code_simp

text \<open>
  C2, amended. For an input of \<open>n\<close> bytes the text is, byte by byte, the token, then
  \<open>, \<close> unless the byte is the last, then a newline exactly when the byte is a
  sixteenth one. So the text has exactly \<open>n div 16\<close> newlines, which is
  \<open>ceil(n/16) - 1\<close> unless \<open>n\<close> is a multiple of sixteen; no token contains a newline;
  every newline comes immediately after a \<open>, \<close> separator, except the newline that ends
  the text, which comes immediately after the complete token of the last byte; and when
  \<open>n\<close> is a positive multiple of sixteen the text does end with that token and a
  newline, while otherwise it does not end with a newline.
\<close>

theorem line_wrap_newlines:
  "\<exists>text. bin2hex_common b = Inr text
     \<and> text = concat (map (\<lambda>k.
         hex_token (b ! k) @ (if Suc k = length b then [] else '', '')
           @ (if Suc k mod 16 = 0 then [newline] else [])) [0..<length b])
     \<and> newline \<notin> set (hex_token x)
     \<and> count_list text newline = length b div 16
     \<and> count_list text newline =
         (if length b mod 16 = 0 then length b div 16 else (length b + 15) div 16 - 1)
     \<and> (\<forall>u v. text = u @ newline # v \<longrightarrow>
           (\<exists>w. u = w @ '', '')
           \<or> (v = [] \<and> length b mod 16 = 0 \<and> b \<noteq> [] \<and> (\<exists>w. u = w @ hex_token (last b))))
     \<and> (if length b mod 16 = 0 \<and> b \<noteq> []
         then \<exists>w. text = w @ hex_token (last b) @ [newline]
         else text = [] \<or> last text \<noteq> newline)"
proof -
  let ?text = "render (length b) 0 b"
  have f: "?text = concat (map (\<lambda>k.
         hex_token (b ! k) @ (if Suc k = length b then [] else '', '')
           @ (if Suc k mod 16 = 0 then [newline] else [])) [0..<length b])"
    by (simp add: render_concat hex_piece_def)
  have c: "count_list ?text newline = length b div 16"
    by (simp add: count_newline_render)
  have d: "length b div 16 =
      (if length b mod 16 = 0 then length b div 16 else (length b + 15) div 16 - 1)"
    using ceil16_minus_1 [of "length b"] by (cases "length b mod 16 = 0") simp_all
  have p: "\<forall>u v. ?text = u @ newline # v \<longrightarrow>
           (\<exists>w. u = w @ '', '')
           \<or> (v = [] \<and> length b mod 16 = 0 \<and> b \<noteq> [] \<and> (\<exists>w. u = w @ hex_token (last b)))"
  proof (intro allI impI)
    fix u v
    assume "?text = u @ newline # v"
    then show "(\<exists>w. u = w @ '', '')
           \<or> (v = [] \<and> length b mod 16 = 0 \<and> b \<noteq> [] \<and> (\<exists>w. u = w @ hex_token (last b)))"
      by (rule render_newline_position) simp
  qed
  have c': "count_list ?text newline =
      (if length b mod 16 = 0 then length b div 16 else (length b + 15) div 16 - 1)"
    using c d by (rule trans)
  have e: "if length b mod 16 = 0 \<and> b \<noteq> []
         then \<exists>w. ?text = w @ hex_token (last b) @ [newline]
         else ?text = [] \<or> last ?text \<noteq> newline"
    by (rule render_end)
  from bin2hex_common_render [of b] f newline_notin_token [of x] c c' p e show ?thesis
    by (intro exI [of _ ?text] conjI)
qed

theorem line_wrap_newlines_witness:
  "count_list (concat (replicate 16 ''0x01, '') @ newline # ''0x01'') newline = 17 div 16
   \<and> (\<exists>w. concat (replicate 16 ''0x01, '') = w @ '', '')
   \<and> (\<exists>w. concat (replicate 15 ''0x00, '') @ ''0x00'' @ [newline]
          = w @ hex_token (last (replicate 16 0)) @ [newline])"
proof -
  let ?b = "replicate 17 (1 :: byte)"
  let ?u = "concat (replicate 16 ''0x01, '')"
  have run: "bin2hex_common ?b = Inr (?u @ newline # ''0x01'')"
    by code_simp
  from line_wrap_newlines [of ?b] obtain hexText where
    t: "bin2hex_common ?b = Inr hexText"
    and c: "count_list hexText newline = length ?b div 16"
    and p: "\<forall>u v. hexText = u @ newline # v \<longrightarrow>
           (\<exists>w. u = w @ '', '')
           \<or> (v = [] \<and> length ?b mod 16 = 0 \<and> ?b \<noteq> [] \<and> (\<exists>w. u = w @ hex_token (last ?b)))"
    by blast
  from t run have eq: "hexText = ?u @ newline # ''0x01''" by simp
  from p eq have "(\<exists>w. ?u = w @ '', '')
      \<or> (''0x01'' = [] \<and> length ?b mod 16 = 0 \<and> ?b \<noteq> [] \<and> (\<exists>w. ?u = w @ hex_token (last ?b)))"
    by blast
  then have 1: "\<exists>w. ?u = w @ '', ''" by simp
  let ?z = "replicate 16 (0 :: byte)"
  have run16: "bin2hex_common ?z = Inr (concat (replicate 15 ''0x00, '') @ ''0x00'' @ [newline])"
    by code_simp
  from line_wrap_newlines [of ?z] obtain hexText16 where
    t16: "bin2hex_common ?z = Inr hexText16"
    and e16: "if length ?z mod 16 = 0 \<and> ?z \<noteq> []
         then \<exists>w. hexText16 = w @ hex_token (last ?z) @ [newline]
         else hexText16 = [] \<or> last hexText16 \<noteq> newline"
    by blast
  from t16 run16 have eq16: "hexText16 = concat (replicate 15 ''0x00, '') @ ''0x00'' @ [newline]"
    by simp
  have "length ?z mod 16 = 0 \<and> ?z \<noteq> []"
    by simp
  with e16 have "\<exists>w. hexText16 = w @ hex_token (last ?z) @ [newline]"
    by simp
  then have 2: "\<exists>w. concat (replicate 15 ''0x00, '') @ ''0x00'' @ [newline]
          = w @ hex_token (last (replicate 16 0)) @ [newline]"
    unfolding eq16 .
  from c eq 1 2 show ?thesis by simp
qed

section \<open>Properties of the file-system operations\<close>

lemma and_then_Inr [simp]: "and_then (Inr st) f = f st"
  by (simp add: and_then_def)

lemma and_then_Inl [simp]: "and_then (Inl e) f = Inl e"
  by (simp add: and_then_def)

lemma and_then_eq_Inr:
  "and_then r f = Inr st' \<longleftrightarrow> (\<exists>st1. r = Inr st1 \<and> f st1 = Inr st')"
  by (cases r) simp_all

lemma on_fs_eq_Inr:
  "on_fs op st = Inr st' \<longleftrightarrow> (\<exists>root'. op (fs st) = Inr root' \<and> st' = st\<lparr>fs := root'\<rparr>)"
  by (cases "op (fs st)") (auto simp: on_fs_def)

lemma split_path_plain: "CHR ''/'' \<notin> set p \<Longrightarrow> split_path p = (None, p)"
  by (simp add: split_path_def)

lemma take_drop_until:
  "c \<notin> set g \<Longrightarrow>
     takeWhile (\<lambda>x. x \<noteq> c) (g @ c # f) = g \<and> dropWhile (\<lambda>x. x \<noteq> c) (g @ c # f) = c # f"
  by (induction g) auto

lemma split_path_sub:
  "CHR ''/'' \<notin> set g \<Longrightarrow> split_path (g @ CHR ''/'' # f) = (Some g, f)"
  by (simp add: split_path_def take_drop_until)

lemma names_filter: "names (filter (\<lambda>e. fst e \<noteq> f) d) = removeAll f (names d)"
  by (induction d) (auto simp: names_def)

lemma names_put_entry [simp]: "names (put_entry f n d) = names d"
  by (induction d) (simp_all add: names_def put_entry_def)

lemma names_iff_map_of: "f \<in> set (names d) \<longleftrightarrow> map_of d f \<noteq> None"
  by (simp add: names_def map_of_eq_None_iff)

lemma map_of_put_entry_raw:
  "map_of (put_entry f n d) g = (if g = f \<and> map_of d f \<noteq> None then Some n else map_of d g)"
  by (induction d) (auto simp: put_entry_def)

lemma map_of_put_entry:
  "map_of (put_entry f n d) g = (if g = f \<and> f \<in> set (names d) then Some n else map_of d g)"
  by (simp add: map_of_put_entry_raw names_iff_map_of)

lemma map_of_filter_name:
  "map_of (filter (\<lambda>e. fst e \<noteq> f) d) g = (if g = f then None else map_of d g)"
  by (induction d) auto

lemma map_of_names: "map_of d f = Some n \<Longrightarrow> f \<in> set (names d)"
  by (simp add: names_iff_map_of)

lemma names_map_of: "f \<in> set (names d) \<Longrightarrow> \<exists>n. map_of d f = Some n"
  by (simp add: names_iff_map_of)

lemma dir_remove_Inr:
  "dir_remove f d = Inr d' \<longleftrightarrow>
     (\<exists>b. map_of d f = Some (File b)) \<and> d' = filter (\<lambda>e. fst e \<noteq> f) d"
  by (auto simp: dir_remove_def split: option.splits node.splits)

lemma dir_write_Inr:
  assumes "dir_write b f d = Inr d'"
  shows "f \<noteq> []"
    and "names d' = (if f \<in> set (names d) then names d else names d @ [f])"
    and "map_of d' g = (if g = f then Some (File b) else map_of d g)"
proof -
  from assms show ne: "f \<noteq> []"
    by (auto simp: dir_write_def split: if_splits)
  show "names d' = (if f \<in> set (names d) then names d else names d @ [f])"
  proof (cases "map_of d f")
    case None
    then have "f \<notin> set (names d)"
      by (auto dest: names_map_of)
    with assms ne None show ?thesis
      by (auto simp: dir_write_def names_def)
  next
    case (Some n)
    then have "f \<in> set (names d)"
      by (rule map_of_names)
    with assms ne Some show ?thesis
      by (cases n) (auto simp: dir_write_def)
  qed
  show "map_of d' g = (if g = f then Some (File b) else map_of d g)"
  proof (cases "map_of d f")
    case None
    with assms ne show ?thesis
      by (auto simp: dir_write_def map_add_def split: option.splits)
  next
    case (Some n)
    then have "f \<in> set (names d)"
      by (rule map_of_names)
    with assms ne Some show ?thesis
      by (cases n) (auto simp: dir_write_def map_of_put_entry)
  qed
qed

lemma dir_read_Inr: "dir_read f d = Inr b \<longleftrightarrow> map_of d f = Some (File b)"
  by (auto simp: dir_read_def split: option.splits node.splits)

lemma entries_at_None [simp]: "entries_at None root = root"
  by (simp add: entries_at_def)

lemma names_at_None [simp]: "names_at None root = names root"
  by (simp add: names_at_def)

lemma names_append [simp]: "names (d @ d') = names d @ names d'"
  by (simp add: names_def)

lemma names_Cons [simp]: "names (e # d) = fst e # names d"
  by (simp add: names_def)

lemma names_Nil [simp]: "names [] = []"
  by (simp add: names_def)

lemma names_at_Some:
  "names_at (Some g) root = (case map_of root g of Some (Dir sub) \<Rightarrow> names sub | _ \<Rightarrow> [])"
  by (simp add: names_at_def entries_at_def split: option.splits node.splits)

lemma at_path_Inr:
  "at_path op p root = Inr root' \<longleftrightarrow>
     (case split_path p of
        (None, f) \<Rightarrow> op f root = Inr root'
      | (Some g, f) \<Rightarrow>
          (\<exists>sub sub'. map_of root g = Some (Dir sub) \<and> op f sub = Inr sub'
             \<and> root' = put_entry g (Dir sub') root))"
  by (auto simp: at_path_def split: prod.splits option.splits node.splits sum.splits)

lemma entries_at_put_entry:
  "map_of root g = Some (Dir sub) \<Longrightarrow>
     entries_at k (put_entry g (Dir sub') root) =
       (if k = None then put_entry g (Dir sub') root
        else if k = Some g then sub' else entries_at k root)"
  by (cases k) (auto simp: entries_at_def map_of_put_entry dest: map_of_names)

lemma names_at_put_entry:
  "map_of root g = Some (Dir sub) \<Longrightarrow>
     names_at k (put_entry g (Dir sub') root) =
       (if k = Some g then names sub' else names_at k root)"
  by (cases k) (auto simp: names_at_def entries_at_def map_of_put_entry dest: map_of_names)

lemma names_at_remove_file:
  "map_of root f = Some (File b) \<Longrightarrow>
     names_at k (filter (\<lambda>e. fst e \<noteq> f) root) =
       (if k = None then removeAll f (names root) else names_at k root)"
  by (cases k) (auto simp: names_at_def entries_at_def map_of_filter_name names_filter)

lemma os_remove_names_at:
  assumes "os_remove p root = Inr root'"
  shows "names_at k root' =
           (if k = path_dir p then removeAll (path_base p) (names_at k root) else names_at k root)"
    and "path_base p \<in> set (names_at (path_dir p) root)"
proof -
  obtain d f where sp: "split_path p = (d, f)"
    by (cases "split_path p")
  then have pd: "path_dir p = d" and pb: "path_base p = f"
    by (simp_all add: path_dir_def path_base_def)
  show "names_at k root' =
           (if k = path_dir p then removeAll (path_base p) (names_at k root) else names_at k root)"
  proof (cases d)
    case None
    with assms sp obtain b where "map_of root f = Some (File b)"
      and "root' = filter (\<lambda>e. fst e \<noteq> f) root"
      by (auto simp: os_remove_def at_path_Inr dir_remove_Inr)
    then show ?thesis
      unfolding pd pb None by (simp add: names_at_remove_file)
  next
    case (Some g)
    with assms sp obtain sub b where g: "map_of root g = Some (Dir sub)"
      and "map_of sub f = Some (File b)"
      and r: "root' = put_entry g (Dir (filter (\<lambda>e. fst e \<noteq> f) sub)) root"
      by (auto simp: os_remove_def at_path_Inr dir_remove_Inr)
    have "names_at (Some g) root = names sub"
      using g by (simp add: names_at_Some)
    then show ?thesis
      unfolding pd pb Some r by (simp add: names_at_put_entry [OF g] names_filter)
  qed
  show "path_base p \<in> set (names_at (path_dir p) root)"
  proof (cases d)
    case None
    with assms sp obtain b where "map_of root f = Some (File b)"
      by (auto simp: os_remove_def at_path_Inr dir_remove_Inr)
    then show ?thesis
      unfolding pd pb None by (simp add: map_of_names)
  next
    case (Some g)
    with assms sp obtain sub b where g: "map_of root g = Some (Dir sub)"
      and "map_of sub f = Some (File b)"
      by (auto simp: os_remove_def at_path_Inr dir_remove_Inr)
    then show ?thesis
      unfolding pd pb Some by (simp add: names_at_Some map_of_names)
  qed
qed

lemma names_at_write_new:
  "map_of root f = None \<Longrightarrow>
     names_at k (root @ [(f, File b)]) =
       (if k = None then names root @ [f] else names_at k root)"
proof (cases k)
  case None
  then show ?thesis by simp
next
  case (Some g)
  assume "map_of root f = None"
  then have "map_of (root @ [(f, File b)]) g = (if g = f then Some (File b) else map_of root g)"
    by (auto simp: map_add_def split: option.splits)
  with \<open>map_of root f = None\<close> show ?thesis
    unfolding Some by (simp add: names_at_Some)
qed

lemma names_at_write_old:
  "map_of root f = Some (File old) \<Longrightarrow>
     names_at k (put_entry f (File b) root) = names_at k root"
proof (cases k)
  case None
  then show ?thesis by simp
next
  case (Some g)
  assume "map_of root f = Some (File old)"
  then show ?thesis
    unfolding Some by (simp add: names_at_Some map_of_put_entry_raw)
qed

lemma write_file_names_at:
  assumes "write_file p b root = Inr root'"
  shows "names_at k root' =
           (if k = path_dir p \<and> path_base p \<notin> set (names_at k root)
            then names_at k root @ [path_base p] else names_at k root)"
    and "path_base p \<noteq> []"
proof -
  obtain d f where sp: "split_path p = (d, f)"
    by (cases "split_path p")
  then have pd: "path_dir p = d" and pb: "path_base p = f"
    by (simp_all add: path_dir_def path_base_def)
  have w: "dir_write b f dd = Inr dd' \<Longrightarrow>
      (map_of dd f = None \<and> dd' = dd @ [(f, File b)])
      \<or> (\<exists>old. map_of dd f = Some (File old) \<and> dd' = put_entry f (File b) dd)" for dd dd'
    by (auto simp: dir_write_def split: if_splits option.splits node.splits)
  show "path_base p \<noteq> []"
    unfolding pb using assms sp
    by (cases d) (auto simp: write_file_def at_path_Inr dest: dir_write_Inr(1))
  show "names_at k root' =
           (if k = path_dir p \<and> path_base p \<notin> set (names_at k root)
            then names_at k root @ [path_base p] else names_at k root)"
  proof (cases d)
    case None
    with assms sp have "dir_write b f root = Inr root'"
      by (simp add: write_file_def at_path_Inr)
    from w [OF this] show ?thesis
    proof
      assume "map_of root f = None \<and> root' = root @ [(f, File b)]"
      then show ?thesis
        unfolding pd pb None by (cases k) (simp_all add: names_at_write_new names_iff_map_of)
    next
      assume "\<exists>old. map_of root f = Some (File old) \<and> root' = put_entry f (File b) root"
      then obtain old where o: "map_of root f = Some (File old)"
        and r: "root' = put_entry f (File b) root"
        by blast
      show ?thesis
        unfolding pd pb None r names_at_write_old [OF o] using o
        by (cases k) (simp_all add: names_iff_map_of)
    qed
  next
    case (Some g)
    with assms sp obtain sub sub' where g: "map_of root g = Some (Dir sub)"
      and s: "dir_write b f sub = Inr sub'"
      and r: "root' = put_entry g (Dir sub') root"
      by (auto simp: write_file_def at_path_Inr)
    have n: "names sub' = (if f \<in> set (names sub) then names sub else names sub @ [f])"
      using s by (rule dir_write_Inr(2))
    have "names_at (Some g) root = names sub"
      using g by (simp add: names_at_Some)
    then show ?thesis
      unfolding pd pb Some r by (simp add: names_at_put_entry [OF g] n)
  qed
qed

lemma deposit_cases:
  "deposit p out root = root \<or> (\<exists>b. write_file p b root = Inr (deposit p out root))"
  by (auto simp: deposit_def split: option.splits sum.splits)

lemma deposit_names_at:
  "names_at k (deposit p out root) = names_at k root
   \<or> (k = path_dir p \<and> path_base p \<notin> set (names_at k root) \<and> path_base p \<noteq> []
       \<and> names_at k (deposit p out root) = names_at k root @ [path_base p])"
proof -
  from deposit_cases [of p out root] show ?thesis
  proof
    assume "deposit p out root = root"
    then show ?thesis by simp
  next
    assume "\<exists>b. write_file p b root = Inr (deposit p out root)"
    then obtain b where w: "write_file p b root = Inr (deposit p out root)" ..
    show ?thesis
      using write_file_names_at(1) [OF w, of k] write_file_names_at(2) [OF w]
      by (auto split: if_splits)
  qed
qed

lemma path_plain [simp]:
  "CHR ''/'' \<notin> set p \<Longrightarrow> path_dir p = None"
  "CHR ''/'' \<notin> set p \<Longrightarrow> path_base p = p"
  by (simp_all add: path_dir_def path_base_def split_path_plain)

lemma path_sub [simp]:
  "CHR ''/'' \<notin> set g \<Longrightarrow> path_dir (g @ CHR ''/'' # f) = Some g"
  "CHR ''/'' \<notin> set g \<Longrightarrow> path_base (g @ CHR ''/'' # f) = f"
  by (simp_all add: path_dir_def path_base_def split_path_sub)

lemma wf_dir_names: "wf_dir d \<longleftrightarrow> good_names (names d)"
  by (simp add: wf_dir_def good_names_def list_all_iff)

lemma wf_root_names: "wf_root root \<longleftrightarrow> (\<forall>k. good_names (names_at k root))"
proof
  assume wf: "wf_root root"
  show "\<forall>k. good_names (names_at k root)"
  proof
    fix k
    show "good_names (names_at k root)"
    proof (cases k)
      case None
      with wf show ?thesis
        by (simp add: wf_root_def wf_dir_names)
    next
      case (Some g)
      show ?thesis
      proof (cases "map_of root g")
        case None
        then show ?thesis
          unfolding Some by (simp add: names_at_Some good_names_def)
      next
        case (Some n)
        then have "(g, n) \<in> set root"
          by (rule map_of_SomeD)
        with wf have "case n of Dir sub \<Rightarrow> wf_dir sub | File b \<Rightarrow> True"
          by (auto simp: wf_root_def list_all_iff)
        with Some show ?thesis
          unfolding \<open>k = Some g\<close>
          by (cases n) (simp_all add: names_at_Some good_names_def wf_dir_names)
      qed
    qed
  qed
next
  assume a: "\<forall>k. good_names (names_at k root)"
  from a [rule_format, of None] have r: "wf_dir root"
    by (simp add: wf_dir_names)
  have "case snd e of Dir sub \<Rightarrow> wf_dir sub | File b \<Rightarrow> True" if e: "e \<in> set root" for e
  proof (cases "snd e")
    case (File b)
    then show ?thesis by simp
  next
    case (Dir sub)
    from r have "distinct (map fst root)"
      by (simp add: wf_dir_def names_def)
    moreover have "e = (fst e, Dir sub)"
      using Dir by (simp add: prod_eq_iff)
    with e have "(fst e, Dir sub) \<in> set root"
      by simp
    ultimately have "map_of root (fst e) = Some (Dir sub)"
      by (rule map_of_is_SomeI)
    with a [rule_format, of "Some (fst e)"] Dir show ?thesis
      by (simp add: names_at_Some wf_dir_names)
  qed
  with r show "wf_root root"
    by (simp add: wf_root_def list_all_iff)
qed

lemma good_names_removeAll: "good_names ns \<Longrightarrow> good_names (removeAll f ns)"
  by (auto simp: good_names_def distinct_removeAll)

lemma good_names_snoc:
  "good_names ns \<Longrightarrow> f \<notin> set ns \<Longrightarrow> f \<noteq> [] \<Longrightarrow> CHR ''/'' \<notin> set f \<Longrightarrow> good_names (ns @ [f])"
  by (auto simp: good_names_def)

lemma wf_root_os_remove:
  "os_remove p root = Inr root' \<Longrightarrow> wf_root root \<Longrightarrow> wf_root root'"
  unfolding wf_root_names
  by (auto simp: os_remove_names_at(1) good_names_removeAll)

lemma wf_root_write_file:
  assumes "write_file p b root = Inr root'" and "wf_root root" and "CHR ''/'' \<notin> set (path_base p)"
  shows "wf_root root'"
  unfolding wf_root_names
proof
  fix k
  from assms(2) have g: "good_names (names_at k root)"
    by (simp add: wf_root_names)
  show "good_names (names_at k root')"
    unfolding write_file_names_at(1) [OF assms(1)]
    using g assms(3) write_file_names_at(2) [OF assms(1)]
    by (auto simp: good_names_snoc)
qed

lemma wf_root_deposit:
  assumes "wf_root root" and "CHR ''/'' \<notin> set (path_base p)"
  shows "wf_root (deposit p out root)"
  using deposit_cases [of p out root] assms
  by (auto intro: wf_root_write_file)

lemma wf_root_plain:
  "wf_root root \<Longrightarrow> f \<in> set (names_at k root) \<Longrightarrow> f \<noteq> [] \<and> CHR ''/'' \<notin> set f"
  by (auto simp: wf_root_names good_names_def)

lemma wf_root_distinct: "wf_root root \<Longrightarrow> distinct (names_at k root)"
  by (auto simp: wf_root_names good_names_def)

section \<open>Properties of the pipeline steps\<close>

lemma search_bcFile_filter:
  "search_bcFile feature listing bcFile =
     (if filter (is_special_bc feature) listing = [] then bcFile
      else last (filter (is_special_bc feature) listing))"
  by (induction listing arbitrary: bcFile) auto

lemma is_special_bc_nonempty: "is_special_bc feature f \<Longrightarrow> f \<noteq> []"
  by (auto simp: is_special_bc_def endswith_def)

lemma search_bcFile_empty:
  "search_bcFile feature listing '''' = '''' \<longleftrightarrow> filter (is_special_bc feature) listing = []"
proof (cases "filter (is_special_bc feature) listing = []")
  case True
  then show ?thesis by (simp add: search_bcFile_filter)
next
  case False
  then have "last (filter (is_special_bc feature) listing) \<in> set (filter (is_special_bc feature) listing)"
    by (rule last_in_set)
  then have "is_special_bc feature (last (filter (is_special_bc feature) listing))"
    by simp
  then have "last (filter (is_special_bc feature) listing) \<noteq> []"
    by (rule is_special_bc_nonempty)
  with False show ?thesis by (simp add: search_bcFile_filter)
qed

lemma special_emu_skip:
  "filter (is_special_bc feature) (names (fs st)) = [] \<Longrightarrow> special_emu env feature st = Inr st"
  by (simp add: special_emu_def search_bcFile_filter)

lemma call_tool_Inr:
  "call_tool env cmd dest st = Inr st' \<longleftrightarrow>
     (\<exists>status out. subprocess_call env cmd (OS_TYPE env \<noteq> ''win'') (fs st) = Inr (status, out)
        \<and> st' = st\<lparr>fs := deposit dest out (fs st), trace := trace st @ [Exec cmd]\<rparr>)"
  by (auto simp: call_tool_def split: sum.splits)

lemma lib_to_hex_Inr:
  "lib_to_hex bin2hex libFile hFile st = Inr st' \<longleftrightarrow>
     (\<exists>binData opened hexText written.
        read_file libFile (fs st) = Inr binData
        \<and> write_file hFile [] (fs st) = Inr opened
        \<and> bin2hex binData = Inr hexText
        \<and> write_file hFile (ascii_bytes hexText) opened = Inr written
        \<and> st' = st\<lparr>fs := written, trace := trace st @ [WriteHeader hFile]\<rparr>)"
  by (auto simp: lib_to_hex_def split: sum.splits)

lemma call_tool_trace: "call_tool env cmd dest st = Inr st' \<Longrightarrow> trace st' = trace st @ [Exec cmd]"
  by (auto simp: call_tool_Inr)

lemma call_tool_names_at:
  assumes "call_tool env cmd dest st = Inr st'"
  shows "names_at k (fs st') = names_at k (fs st)
    \<or> (k = path_dir dest \<and> path_base dest \<notin> set (names_at k (fs st)) \<and> path_base dest \<noteq> []
        \<and> names_at k (fs st') = names_at k (fs st) @ [path_base dest])"
proof -
  from assms obtain out where "fs st' = deposit dest out (fs st)"
    by (auto simp: call_tool_Inr)
  then show ?thesis
    using deposit_names_at [of k dest out "fs st"] by simp
qed

lemma call_tool_wf:
  "call_tool env cmd dest st = Inr st' \<Longrightarrow> wf_root (fs st) \<Longrightarrow>
     CHR ''/'' \<notin> set (path_base dest) \<Longrightarrow> wf_root (fs st')"
  by (auto simp: call_tool_Inr wf_root_deposit)

lemma lib_to_hex_trace:
  "lib_to_hex bin2hex libFile hFile st = Inr st' \<Longrightarrow> trace st' = trace st @ [WriteHeader hFile]"
  by (auto simp: lib_to_hex_Inr)

lemma lib_to_hex_names_at:
  assumes "lib_to_hex bin2hex libFile hFile st = Inr st'"
  shows "names_at k (fs st') =
           (if k = path_dir hFile \<and> path_base hFile \<notin> set (names_at k (fs st))
            then names_at k (fs st) @ [path_base hFile] else names_at k (fs st))"
    and "path_base hFile \<noteq> []"
    and "path_base libFile \<in> set (names_at (path_dir libFile) (fs st))"
proof -
  from assms obtain binData opened hexText written where
    r: "read_file libFile (fs st) = Inr binData"
    and o: "write_file hFile [] (fs st) = Inr opened"
    and w: "write_file hFile (ascii_bytes hexText) opened = Inr written"
    and s: "fs st' = written"
    by (auto simp: lib_to_hex_Inr)
  show "names_at k (fs st') =
           (if k = path_dir hFile \<and> path_base hFile \<notin> set (names_at k (fs st))
            then names_at k (fs st) @ [path_base hFile] else names_at k (fs st))"
    unfolding s write_file_names_at(1) [OF w] write_file_names_at(1) [OF o] by auto
  show "path_base hFile \<noteq> []"
    using o by (rule write_file_names_at(2))
  show "path_base libFile \<in> set (names_at (path_dir libFile) (fs st))"
  proof (cases "split_path libFile")
    case (Pair d f)
    then show ?thesis
      using r
      by (cases d)
        (auto simp: read_file_def path_dir_def path_base_def dir_read_Inr names_at_Some
          split: option.splits node.splits dest: map_of_names)
  qed
qed

lemma lib_to_hex_wf:
  assumes "lib_to_hex bin2hex libFile hFile st = Inr st'" and "wf_root (fs st)"
    and "CHR ''/'' \<notin> set (path_base hFile)"
  shows "wf_root (fs st')"
proof -
  from assms(1) obtain opened hexText written where
    o: "write_file hFile [] (fs st) = Inr opened"
    and w: "write_file hFile (ascii_bytes hexText) opened = Inr written"
    and s: "fs st' = written"
    by (auto simp: lib_to_hex_Inr)
  from o assms(2,3) have "wf_root opened"
    by (rule wf_root_write_file)
  with w have "wf_root written"
    using assms(3) by (rule wf_root_write_file)
  with s show ?thesis by simp
qed

lemma remove_step_Inr:
  "on_fs (os_remove p) st = Inr st' \<longleftrightarrow>
     (\<exists>root'. os_remove p (fs st) = Inr root' \<and> st' = st\<lparr>fs := root'\<rparr>)"
  by (rule on_fs_eq_Inr)

lemma remove_step_facts:
  assumes "on_fs (os_remove p) st = Inr st'"
  shows "names_at k (fs st') =
           (if k = path_dir p then removeAll (path_base p) (names_at k (fs st))
            else names_at k (fs st))"
    and "path_base p \<in> set (names_at (path_dir p) (fs st))"
    and "trace st' = trace st"
    and "wf_root (fs st) \<Longrightarrow> wf_root (fs st')"
proof -
  from assms obtain root' where r: "os_remove p (fs st) = Inr root'" and s: "st' = st\<lparr>fs := root'\<rparr>"
    by (auto simp: remove_step_Inr)
  show "names_at k (fs st') =
           (if k = path_dir p then removeAll (path_base p) (names_at k (fs st))
            else names_at k (fs st))"
    using os_remove_names_at(1) [OF r, of k] s by simp
  show "path_base p \<in> set (names_at (path_dir p) (fs st))"
    using os_remove_names_at(2) [OF r] .
  show "trace st' = trace st"
    using s by simp
  show "wf_root (fs st) \<Longrightarrow> wf_root (fs st')"
    using wf_root_os_remove [OF r] s by simp
qed

lemma filter_removeAll_not: "\<not> P x \<Longrightarrow> filter P (removeAll x xs) = filter P xs"
  by (induction xs) auto

lemma special_emu_Inr:
  assumes wf: "wf_root (fs st)"
    and M: "filter (is_special_bc feature) (names (fs st)) \<noteq> []"
    and ok: "special_emu env feature st = Inr st'"
    and nf: "CHR ''/'' \<notin> set feature"
  defines "bcFile \<equiv> last (filter (is_special_bc feature) (names (fs st)))"
    and "libFile \<equiv> ''glsl'' @ feature @ ''Emu.lib''"
    and "hFile \<equiv> ''g_llpcGlsl'' @ feature @ ''EmuLib.h''"
  shows "trace st' = trace st @ [Exec (LLVM_LINK env @ '' -o='' @ libFile @ '' '' @ bcFile),
            WriteHeader hFile]"
    and "set (names (fs st')) = (set (names (fs st)) \<union> {hFile}) - {bcFile, libFile}"
    and "\<not> P bcFile \<Longrightarrow> \<not> P libFile \<Longrightarrow> \<not> P hFile \<Longrightarrow>
           filter P (names (fs st')) = filter P (names (fs st))"
    and "wf_root (fs st')"
    and "names_at (Some g) (fs st') = names_at (Some g) (fs st)"
proof -
  have bc_in: "bcFile \<in> set (names (fs st))"
    using last_in_set [OF M] by (simp add: bcFile_def)
  have bc_plain: "CHR ''/'' \<notin> set bcFile" and bc_ne: "bcFile \<noteq> []"
    using wf_root_plain [OF wf, of bcFile None] bc_in by simp_all
  have lib_plain: "CHR ''/'' \<notin> set libFile" and h_plain: "CHR ''/'' \<notin> set hFile"
    using nf by (simp_all add: libFile_def hFile_def)
  have search: "search_bcFile feature (names (fs st)) '''' = bcFile"
    using M by (simp add: search_bcFile_filter bcFile_def)
  from ok obtain st1 st2 st3 where
    1: "call_tool env (LLVM_LINK env @ '' -o='' @ libFile @ '' '' @ bcFile) libFile st = Inr st1"
    and 2: "lib_to_hex bin2hex_special libFile hFile st1 = Inr st2"
    and 3: "on_fs (os_remove bcFile) st2 = Inr st3"
    and 4: "on_fs (os_remove libFile) st3 = Inr st'"
    unfolding special_emu_def search Let_def libFile_def [symmetric] hFile_def [symmetric]
    using bc_ne by (auto simp: and_then_eq_Inr)
  show "trace st' = trace st @ [Exec (LLVM_LINK env @ '' -o='' @ libFile @ '' '' @ bcFile),
            WriteHeader hFile]"
    using call_tool_trace [OF 1] lib_to_hex_trace [OF 2] remove_step_facts(3) [OF 3]
      remove_step_facts(3) [OF 4] by simp
  have wf1: "wf_root (fs st1)"
    using 1 wf lib_plain by (auto intro: call_tool_wf)
  have wf2: "wf_root (fs st2)"
    using 2 wf1 h_plain by (auto intro: lib_to_hex_wf)
  have wf3: "wf_root (fs st3)"
    using remove_step_facts(4) [OF 3 wf2] .
  show "wf_root (fs st')"
    using remove_step_facts(4) [OF 4 wf3] .
  have n1: "names_at k (fs st1) = names_at k (fs st)
      \<or> (k = None \<and> names_at k (fs st1) = names_at k (fs st) @ [libFile])" for k
    using call_tool_names_at [OF 1, of k] lib_plain by auto
  have n2: "names_at k (fs st2) = names_at k (fs st1)
      \<or> (k = None \<and> names_at k (fs st2) = names_at k (fs st1) @ [hFile])" for k
    using lib_to_hex_names_at(1) [OF 2, of k] h_plain by auto
  have n3: "names_at k (fs st3) =
      (if k = None then removeAll bcFile (names_at k (fs st2)) else names_at k (fs st2))" for k
    using remove_step_facts(1) [OF 3, of k] bc_plain by simp
  have n4: "names_at k (fs st') =
      (if k = None then removeAll libFile (names_at k (fs st3)) else names_at k (fs st3))" for k
    using remove_step_facts(1) [OF 4, of k] lib_plain by simp
  show "names_at (Some g) (fs st') = names_at (Some g) (fs st)"
    using n1 [of "Some g"] n2 [of "Some g"] n3 [of "Some g"] n4 [of "Some g"] by simp
  have h_in: "hFile \<in> set (names (fs st2))"
    using lib_to_hex_names_at(1) [OF 2, of None] h_plain by (auto split: if_splits)
  show "set (names (fs st')) = (set (names (fs st)) \<union> {hFile}) - {bcFile, libFile}"
    using n1 [of None] n2 [of None] n3 [of None] n4 [of None] h_in by auto
  show "filter P (names (fs st')) = filter P (names (fs st))"
    if "\<not> P bcFile" "\<not> P libFile" "\<not> P hFile"
    using n1 [of None] n2 [of None] n3 [of None] n4 [of None] that
    by (auto simp: filter_removeAll_not)
qed

lemma endswith_iff: "endswith s p \<longleftrightarrow> (\<exists>x. s = x @ p)"
proof
  assume "endswith s p"
  then have d: "drop (length s - length p) s = p"
    by (simp add: endswith_def)
  have "take (length s - length p) s @ drop (length s - length p) s = s"
    by (rule append_take_drop_id)
  with d have "s = take (length s - length p) s @ p"
    by simp
  then show "\<exists>x. s = x @ p" ..
next
  assume "\<exists>x. s = x @ p"
  then obtain x where "s = x @ p" ..
  then show "endswith s p"
    by (simp add: endswith_def)
qed

lemma startswith_iff: "startswith s p \<longleftrightarrow> (\<exists>x. s = p @ x)"
proof
  assume "startswith s p"
  then have t: "take (length p) s = p"
    by (simp add: startswith_def)
  have "take (length p) s @ drop (length p) s = s"
    by (rule append_take_drop_id)
  with t have "s = p @ drop (length p) s"
    by simp
  then show "\<exists>x. s = p @ x" ..
next
  assume "\<exists>x. s = p @ x"
  then obtain x where "s = p @ x" ..
  then show "startswith s p"
    by (simp add: startswith_def)
qed

lemma endswith_append [simp]: "endswith (x @ p) p"
  by (simp add: endswith_def)

lemma endswith_last: "endswith s p \<Longrightarrow> p \<noteq> [] \<Longrightarrow> last s = last p"
proof -
  assume "endswith s p"
  then obtain x where s: "s = x @ p"
    unfolding endswith_iff ..
  assume "p \<noteq> []"
  with s show ?thesis by simp
qed

lemma not_special_lib [simp]: "\<not> is_special_bc feature (x @ ''Emu.lib'')"
proof
  assume "is_special_bc feature (x @ ''Emu.lib'')"
  then have "endswith (x @ ''Emu.lib'') ''Emu.bc''"
    by (simp add: is_special_bc_def)
  then have "last (x @ ''Emu.lib'') = last ''Emu.bc''"
    by (rule endswith_last) simp
  then show False by simp
qed

lemma not_special_header [simp]: "\<not> is_special_bc feature (x @ ''EmuLib.h'')"
proof
  assume "is_special_bc feature (x @ ''EmuLib.h'')"
  then have "endswith (x @ ''EmuLib.h'') ''Emu.bc''"
    by (simp add: is_special_bc_def)
  then have "last (x @ ''EmuLib.h'') = last ''Emu.bc''"
    by (rule endswith_last) simp
  then show False by simp
qed

lemma endswith_longer: "endswith (x @ y @ p) p"
  using endswith_append [of "x @ y" p] by simp

lemma special_bc_ends_bc: "is_special_bc feature f \<Longrightarrow> endswith f ''.bc''"
proof -
  assume "is_special_bc feature f"
  then have "endswith f ''Emu.bc''"
    by (simp add: is_special_bc_def)
  then obtain x where f: "f = x @ ''Emu'' @ ''.bc''"
    unfolding endswith_iff by auto
  show ?thesis
    unfolding f by (rule endswith_longer)
qed

lemma special_disjoint:
  "is_special_bc ''NullFs'' f \<Longrightarrow> \<not> is_special_bc ''CopyShader'' f"
proof
  assume "is_special_bc ''NullFs'' f"
  then have "startswith f ''glslNullFs''"
    by (simp add: is_special_bc_def)
  then obtain x where x: "f = ''glslNullFs'' @ x"
    unfolding startswith_iff ..
  assume "is_special_bc ''CopyShader'' f"
  then have "startswith f ''glslCopyShader''"
    by (simp add: is_special_bc_def)
  then obtain y where y: "f = ''glslCopyShader'' @ y"
    unfolding startswith_iff ..
  from x y have "''glslNullFs'' @ x = ''glslCopyShader'' @ y"
    by simp
  then show False by simp
qed


lemma set_butlast_distinct: "distinct xs \<Longrightarrow> xs \<noteq> [] \<Longrightarrow> set (butlast xs) = set xs - {last xs}"
proof -
  assume d: "distinct xs" and n: "xs \<noteq> []"
  then have x: "butlast xs @ [last xs] = xs" by simp
  with d have "distinct (butlast xs @ [last xs])" by simp
  then have a: "last xs \<notin> set (butlast xs)" by simp
  have "set (butlast xs @ [last xs]) = set (butlast xs) \<union> {last xs}"
    by simp
  then have "set xs = set (butlast xs) \<union> {last xs}"
    unfolding x .
  with a show ?thesis by auto
qed

lemma special_emu_rest:
  assumes wf: "wf_root (fs st)"
    and ok: "special_emu env feature st = Inr st'"
    and nf: "CHR ''/'' \<notin> set feature"
  shows "set (names (fs st')) \<inter> set (filter (is_special_bc feature) (names (fs st)))
           = set (butlast (filter (is_special_bc feature) (names (fs st))))"
    and "wf_root (fs st')"
proof -
  define M where "M = filter (is_special_bc feature) (names (fs st))"
  define lib where "lib = ''glsl'' @ feature @ ''Emu.lib''"
  define h where "h = ''g_llpcGlsl'' @ feature @ ''EmuLib.h''"
  have nl: "\<not> is_special_bc feature lib"
    using not_special_lib [of feature "''glsl'' @ feature"] by (simp add: lib_def)
  have nh: "\<not> is_special_bc feature h"
    using not_special_header [of feature "''g_llpcGlsl'' @ feature"] by (simp add: h_def)
  have dM: "distinct M"
    using wf_root_distinct [OF wf, of None] by (simp add: M_def)
  have sM: "\<forall>m \<in> set M. is_special_bc feature m \<and> m \<in> set (names (fs st))"
    by (simp add: M_def)
  show "wf_root (fs st')"
  proof (cases "M = []")
    case True
    with ok wf show ?thesis by (simp add: special_emu_skip M_def)
  next
    case False
    then have "filter (is_special_bc feature) (names (fs st)) \<noteq> []"
      by (simp add: M_def)
    from special_emu_Inr(4) [OF wf this ok nf] show ?thesis .
  qed
  have "set (names (fs st')) \<inter> set M = set (butlast M)"
  proof (cases "M = []")
    case True
    then show ?thesis by simp
  next
    case False
    then have ne: "filter (is_special_bc feature) (names (fs st)) \<noteq> []"
      by (simp add: M_def)
    have s: "set (names (fs st')) = (set (names (fs st)) \<union> {h}) - {last M, lib}"
      using special_emu_Inr(2) [OF wf ne ok nf] by (simp add: M_def lib_def h_def)
    have "set (names (fs st')) \<inter> set M = set M - {last M}"
      unfolding s using nl nh sM by blast
    then show ?thesis
      by (simp add: set_butlast_distinct [OF dM False])
  qed
  then show "set (names (fs st')) \<inter> set (filter (is_special_bc feature) (names (fs st)))
           = set (butlast (filter (is_special_bc feature) (names (fs st))))"
    by (simp add: M_def)
qed

lemma special_emu_other:
  assumes wf: "wf_root (fs st)"
    and ok: "special_emu env feature st = Inr st'"
    and nf: "CHR ''/'' \<notin> set feature"
    and P: "\<forall>f. is_special_bc feature f \<longrightarrow> \<not> P f"
    and Pl: "\<And>x. \<not> P (x @ ''Emu.lib'')" and Ph: "\<And>x. \<not> P (x @ ''EmuLib.h'')"
  shows "filter P (names (fs st')) = filter P (names (fs st))"
proof (cases "filter (is_special_bc feature) (names (fs st)) = []")
  case True
  with ok show ?thesis by (simp add: special_emu_skip)
next
  case False
  show ?thesis
  proof (rule special_emu_Inr(3) [OF wf False ok nf])
    show "\<not> P (''glsl'' @ feature @ ''Emu.lib'')"
      using Pl [of "''glsl'' @ feature"] by simp
    show "\<not> P (''g_llpcGlsl'' @ feature @ ''EmuLib.h'')"
      using Ph [of "''g_llpcGlsl'' @ feature"] by simp
    have "last (filter (is_special_bc feature) (names (fs st)))
        \<in> set (filter (is_special_bc feature) (names (fs st)))"
      using False by (rule last_in_set)
    then have "is_special_bc feature (last (filter (is_special_bc feature) (names (fs st))))"
      by simp
    then show "\<not> P (last (filter (is_special_bc feature) (names (fs st))))"
      using P by blast
  qed
qed

lemma special_events_trace:
  assumes wf: "wf_root (fs st)"
    and ok: "special_emu env feature st = Inr st'"
    and nf: "CHR ''/'' \<notin> set feature"
  shows "trace st' = trace st @ special_events env feature (names (fs st))"
proof (cases "filter (is_special_bc feature) (names (fs st)) = []")
  case True
  with ok show ?thesis by (simp add: special_emu_skip special_events_def)
next
  case False
  from special_emu_Inr(1) [OF wf False ok nf] False show ?thesis
    by (simp add: special_events_def)
qed

lemma special_stage:
  assumes wf: "wf_root (fs st)"
    and ok: "special_emus env SPECIAL_EMUS st = Inr st2"
  shows "trace st2 = trace st @ special_events env ''NullFs'' (names (fs st))
           @ special_events env ''CopyShader'' (names (fs st))"
    and "feature \<in> set SPECIAL_EMUS \<Longrightarrow>
           set (names (fs st2)) \<inter> set (filter (is_special_bc feature) (names (fs st)))
             = set (butlast (filter (is_special_bc feature) (names (fs st))))"
    and "wf_root (fs st2)"
proof -
  from ok obtain st1 where
    1: "special_emu env ''NullFs'' st = Inr st1" and 2: "special_emu env ''CopyShader'' st1 = Inr st2"
    by (auto simp: SPECIAL_EMUS_def and_then_eq_Inr)
  have nfN: "CHR ''/'' \<notin> set ''NullFs''" and nfC: "CHR ''/'' \<notin> set ''CopyShader''"
    by simp_all
  have wf1: "wf_root (fs st1)"
    by (rule special_emu_rest(2) [OF wf 1 nfN])
  show "wf_root (fs st2)"
    by (rule special_emu_rest(2) [OF wf1 2 nfC])
  have C1: "filter (is_special_bc ''CopyShader'') (names (fs st1))
      = filter (is_special_bc ''CopyShader'') (names (fs st))"
    by (rule special_emu_other [OF wf 1 nfN]) (simp_all add: special_disjoint)
  have N2: "filter (is_special_bc ''NullFs'') (names (fs st2))
      = filter (is_special_bc ''NullFs'') (names (fs st1))"
  proof (rule special_emu_other [OF wf1 2 nfC])
    show "\<forall>f. is_special_bc ''CopyShader'' f \<longrightarrow> \<not> is_special_bc ''NullFs'' f"
      using special_disjoint by blast
  qed simp_all
  show "trace st2 = trace st @ special_events env ''NullFs'' (names (fs st))
           @ special_events env ''CopyShader'' (names (fs st))"
    using special_events_trace [OF wf 1 nfN] special_events_trace [OF wf1 2 nfC]
    by (simp add: special_events_def C1)
  have restN: "set (names (fs st1)) \<inter> set (filter (is_special_bc ''NullFs'') (names (fs st)))
      = set (butlast (filter (is_special_bc ''NullFs'') (names (fs st))))"
    by (rule special_emu_rest(1) [OF wf 1 nfN])
  have restC: "set (names (fs st2)) \<inter> set (filter (is_special_bc ''CopyShader'') (names (fs st1)))
      = set (butlast (filter (is_special_bc ''CopyShader'') (names (fs st1))))"
    by (rule special_emu_rest(1) [OF wf1 2 nfC])
  have keepN: "set (names (fs st2)) \<inter> set (filter (is_special_bc ''NullFs'') (names (fs st)))
      = set (names (fs st1)) \<inter> set (filter (is_special_bc ''NullFs'') (names (fs st)))"
  proof -
    have "set (filter (is_special_bc ''NullFs'') (names (fs st2)))
        = set (filter (is_special_bc ''NullFs'') (names (fs st1)))"
      using N2 by simp
    then show ?thesis by auto
  qed
  assume "feature \<in> set SPECIAL_EMUS"
  then have "feature = ''NullFs'' \<or> feature = ''CopyShader''"
    by (simp add: SPECIAL_EMUS_def)
  then show "set (names (fs st2)) \<inter> set (filter (is_special_bc feature) (names (fs st)))
             = set (butlast (filter (is_special_bc feature) (names (fs st))))"
  proof
    assume "feature = ''NullFs''"
    then show ?thesis using keepN restN by simp
  next
    assume "feature = ''CopyShader''"
    then show ?thesis using restC C1 by simp
  qed
qed

lemma collect_bcFiles_concat:
  "collect_bcFiles listing bcFiles =
     bcFiles @ concat (map (\<lambda>f. f @ '' '') (filter (\<lambda>f. endswith f ''.bc'') listing))"
  by (induction listing arbitrary: bcFiles) simp_all

lemma common_emu_Inr:
  assumes "common_emu env st = Inr st'"
  defines "bcFiles \<equiv> concat (map (\<lambda>f. f @ '' '') (filter (\<lambda>f. endswith f ''.bc'') (names (fs st))))"
  shows "\<exists>st1 st2 st3.
      call_tool env (LLVM_LINK env @ '' -o=glslEmu.lib '' @ bcFiles) ''glslEmu.lib'' st = Inr st1
      \<and> lib_to_hex bin2hex_common ''glslEmu.lib'' ''g_llpcGlslEmuLib.h'' st1 = Inr st2
      \<and> remove_loop (py_split bcFiles) st2 = Inr st3
      \<and> on_fs (os_remove ''glslEmu.lib'') st3 = Inr st'"
  using assms(1) unfolding common_emu_def Let_def collect_bcFiles_concat bcFiles_def
  by (simp add: and_then_eq_Inr)

lemma remove_loop_trace: "remove_loop ps st = Inr st' \<Longrightarrow> trace st' = trace st"
proof (induction ps arbitrary: st)
  case Nil
  then show ?case by simp
next
  case (Cons p ps)
  from Cons.prems obtain st1 where 1: "on_fs (os_remove p) st = Inr st1"
    and 2: "remove_loop ps st1 = Inr st'"
    by (auto simp: and_then_eq_Inr)
  from Cons.IH [OF 2] remove_step_facts(3) [OF 1] show ?case by simp
qed

lemma common_emu_trace:
  assumes "common_emu env st = Inr st'"
  shows "trace st' = trace st @
     [Exec (LLVM_LINK env @ '' -o=glslEmu.lib '' @
        concat (map (\<lambda>f. f @ '' '') (filter (\<lambda>f. endswith f ''.bc'') (names (fs st))))),
      WriteHeader ''g_llpcGlslEmuLib.h'']"
proof -
  from common_emu_Inr [OF assms] obtain st1 st2 st3 where
    1: "call_tool env (LLVM_LINK env @ '' -o=glslEmu.lib '' @
        concat (map (\<lambda>f. f @ '' '') (filter (\<lambda>f. endswith f ''.bc'') (names (fs st)))))
        ''glslEmu.lib'' st = Inr st1"
    and 2: "lib_to_hex bin2hex_common ''glslEmu.lib'' ''g_llpcGlslEmuLib.h'' st1 = Inr st2"
    and 3: "remove_loop (py_split (concat (map (\<lambda>f. f @ '' '')
        (filter (\<lambda>f. endswith f ''.bc'') (names (fs st)))))) st2 = Inr st3"
    and 4: "on_fs (os_remove ''glslEmu.lib'') st3 = Inr st'"
    by blast
  show ?thesis
    using call_tool_trace [OF 1] lib_to_hex_trace [OF 2] remove_loop_trace [OF 3]
      remove_step_facts(3) [OF 4] by simp
qed

subsection \<open>The cleanup loops\<close>

lemma map_of_middle:
  "distinct (names (pre @ (f, n) # rest)) \<Longrightarrow> map_of (pre @ (f, n) # rest) f = Some n"
  by (rule map_of_is_SomeI) (simp_all add: names_def)

lemma filter_middle:
  assumes "distinct (names (pre @ (f, n) # rest))"
  shows "filter (\<lambda>e. fst e \<noteq> f) (pre @ (f, n) # rest) = pre @ rest"
proof -
  from assms have "f \<notin> fst ` set pre" and "f \<notin> fst ` set rest"
    by (auto simp: names_def)
  then have "filter (\<lambda>e. fst e \<noteq> f) pre = pre" and "filter (\<lambda>e. fst e \<noteq> f) rest = rest"
    by (auto simp: filter_id_conv)
  then show ?thesis by simp
qed

lemma put_entry_absent: "f \<notin> set (names d) \<Longrightarrow> put_entry f m d = d"
  by (induction d) (auto simp: put_entry_def)

lemma put_entry_append: "put_entry f m (d @ d') = put_entry f m d @ put_entry f m d'"
  by (simp add: put_entry_def)

lemma put_entry_middle:
  assumes "distinct (names (pre @ (f, n) # rest))"
  shows "put_entry f m (pre @ (f, n) # rest) = pre @ (f, m) # rest"
proof -
  from assms have "f \<notin> set (names pre)" and "f \<notin> set (names rest)"
    by auto
  then have "put_entry f m pre = pre" and "put_entry f m rest = rest"
    by (simp_all add: put_entry_absent)
  moreover have "put_entry f m ((f, n) # rest) = (f, m) # put_entry f m rest"
    by (simp add: put_entry_def)
  ultimately show ?thesis
    by (simp add: put_entry_append)
qed

lemma clean_gfx_closed:
  "distinct (names (pre @ rest)) \<Longrightarrow>
     clean_gfx (names rest) (pre @ rest) = Inr sub' \<longleftrightarrow>
       removable rest \<and> sub' = pre @ keep_entries rest"
proof (induction rest arbitrary: pre)
  case Nil
  then show ?case by (auto simp: removable_def keep_entries_def)
next
  case (Cons e rest)
  obtain f n where e: "e = (f, n)" by (cases e)
  note d = Cons.prems [unfolded e]
  show ?case
  proof (cases "is_generated f")
    case True
    show ?thesis
    proof (cases n)
      case (File b)
      have r: "dir_remove f (pre @ (f, n) # rest) = Inr (pre @ rest)"
        using map_of_middle [OF d] filter_middle [OF d] File by (simp add: dir_remove_def)
      have d': "distinct (names (pre @ rest))"
        using d by simp
      show ?thesis
        unfolding e using True File r Cons.IH [OF d']
        by (simp add: removable_def keep_entries_def is_file_def)
    next
      case (Dir sub)
      have "dir_remove f (pre @ (f, n) # rest) = Inl IsADirectoryError"
        using map_of_middle [OF d] Dir by (simp add: dir_remove_def)
      then show ?thesis
        unfolding e using True Dir by (simp add: removable_def is_file_def)
    qed
  next
    case False
    have d': "distinct (names ((pre @ [(f, n)]) @ rest))"
      using d by simp
    show ?thesis
      unfolding e using False Cons.IH [OF d']
      by (simp add: removable_def keep_entries_def)
  qed
qed

lemma os_remove_plain: "CHR ''/'' \<notin> set f \<Longrightarrow> os_remove f root = dir_remove f root"
  by (simp add: os_remove_def at_path_def split_path_plain)

lemma cleaned_Cons:
  "cleaned (e # rest) = (if is_generated (fst e) then cleaned rest else clean_entry e # cleaned rest)"
  by (simp add: cleaned_def keep_entries_def)

lemma cleanable_Cons:
  "cleanable (e # rest) \<longleftrightarrow>
     (if is_generated (fst e) then is_file (snd e)
      else (case snd e of Dir sub \<Rightarrow> startswith (fst e) ''gfx'' \<longrightarrow> removable sub | File b \<Rightarrow> True))
     \<and> cleanable rest"
  by (simp add: cleanable_def)

lemma clean_loop_closed:
  assumes "distinct (names (pre @ rest))"
    and "\<forall>f \<in> set (names rest). CHR ''/'' \<notin> set f"
    and "\<forall>e \<in> set rest. case snd e of Dir sub \<Rightarrow> distinct (names sub) | File b \<Rightarrow> True"
  shows "clean_loop (names rest) \<lparr>fs = pre @ rest, trace = t\<rparr> = Inr st' \<longleftrightarrow>
           cleanable rest \<and> st' = \<lparr>fs = pre @ cleaned rest, trace = t\<rparr>"
  using assms
proof (induction rest arbitrary: pre)
  case Nil
  then show ?case by (auto simp: cleanable_def cleaned_def keep_entries_def)
next
  case (Cons e rest)
  obtain f n where e: "e = (f, n)" by (cases e)
  note d = Cons.prems(1) [unfolded e]
  have plain: "CHR ''/'' \<notin> set f"
    using Cons.prems(2) e by simp
  have rest_plain: "\<forall>f \<in> set (names rest). CHR ''/'' \<notin> set f"
    using Cons.prems(2) by simp
  have rest_sub: "\<forall>e \<in> set rest. case snd e of Dir sub \<Rightarrow> distinct (names sub) | File b \<Rightarrow> True"
    using Cons.prems(3) by simp
  have look: "map_of (pre @ (f, n) # rest) f = Some n"
    by (rule map_of_middle [OF d])
  show ?case
  proof (cases "is_generated f")
    case True
    show ?thesis
    proof (cases n)
      case (File b)
      have r: "os_remove f (pre @ (f, n) # rest) = Inr (pre @ rest)"
        using look filter_middle [OF d] File plain by (simp add: os_remove_plain dir_remove_def)
      have d': "distinct (names (pre @ rest))"
        using d by simp
      show ?thesis
        unfolding e using True File r Cons.IH [OF d' rest_plain rest_sub]
        by (simp add: on_fs_def cleanable_Cons cleaned_Cons is_file_def)
    next
      case (Dir sub)
      have "os_remove f (pre @ (f, n) # rest) = Inl IsADirectoryError"
        using look Dir plain by (simp add: os_remove_plain dir_remove_def)
      then show ?thesis
        unfolding e using True Dir by (simp add: on_fs_def cleanable_Cons is_file_def)
    qed
  next
    case False
    show ?thesis
    proof (cases n)
      case (File b)
      have d': "distinct (names ((pre @ [(f, n)]) @ rest))"
        using d by simp
      have nd: "\<not> os_path_isdir f (pre @ (f, n) # rest)"
        using look File by (simp add: os_path_isdir_def)
      show ?thesis
        unfolding e using False File nd Cons.IH [OF d' rest_plain rest_sub]
        by (simp add: cleanable_Cons cleaned_Cons clean_entry_def)
    next
      case (Dir sub)
      have isd: "os_path_isdir f (pre @ (f, n) # rest)"
        using look Dir by (simp add: os_path_isdir_def)
      show ?thesis
      proof (cases "startswith f ''gfx''")
        case nogfx: False
        have d': "distinct (names ((pre @ [(f, n)]) @ rest))"
          using d by simp
        show ?thesis
          unfolding e using False Dir nogfx Cons.IH [OF d' rest_plain rest_sub]
          by (simp add: cleanable_Cons cleaned_Cons clean_entry_def)
      next
        case gfx: True
        have ds: "distinct (names ([] @ sub))"
          using Cons.prems(3) e Dir by simp
        note inner = clean_gfx_closed [OF ds, simplified]
        show ?thesis
        proof (cases "removable sub")
          case True
          have c: "clean_gfx (names sub) sub = Inr (keep_entries sub)"
            using inner [of "keep_entries sub"] True by simp
          have p: "put_entry f (Dir (keep_entries sub)) (pre @ (f, Dir sub) # rest)
              = pre @ (f, Dir (keep_entries sub)) # rest"
            using put_entry_middle [OF d] Dir by simp
          have d': "distinct (names ((pre @ [(f, Dir (keep_entries sub))]) @ rest))"
            using d by simp
          note ih = Cons.IH [OF d' rest_plain rest_sub, simplified]
          show ?thesis
            unfolding e using False Dir gfx isd look c True ih
            by (simp add: cleanable_Cons cleaned_Cons clean_entry_def p)
        next
          case nr: False
          have "\<And>sub'. clean_gfx (names sub) sub \<noteq> Inr sub'"
            using inner nr by simp
          then obtain err where c: "clean_gfx (names sub) sub = Inl err"
            by (cases "clean_gfx (names sub) sub") auto
          show ?thesis
            unfolding e using False Dir gfx isd look c nr
            by (cases err) (simp add: cleanable_Cons)
        qed
      qed
    qed
  qed
qed

lemma keep_entries_id: "list_all (\<lambda>e. \<not> is_generated (fst e)) d \<Longrightarrow> keep_entries d = d"
  by (induction d) (simp_all add: keep_entries_def)

lemma removable_clean: "list_all (\<lambda>e. \<not> is_generated (fst e)) d \<Longrightarrow> removable d"
  by (induction d) (simp_all add: removable_def)

lemma nothing_generated_cleaned:
  "nothing_generated root \<Longrightarrow> cleanable root \<and> cleaned root = root"
proof (induction root)
  case Nil
  show ?case by (simp add: cleanable_def cleaned_def keep_entries_def)
next
  case (Cons e root)
  from Cons.prems have e: "\<not> is_generated (fst e)"
    and s: "case snd e of Dir sub \<Rightarrow> startswith (fst e) ''gfx'' \<longrightarrow>
        list_all (\<lambda>e. \<not> is_generated (fst e)) sub | File b \<Rightarrow> True"
    and r: "nothing_generated root"
    by (simp_all add: nothing_generated_def)
  from Cons.IH [OF r] have ih: "cleanable root" "cleaned root = root"
    by simp_all
  have "clean_entry e = e"
    using s by (cases e; cases "snd e") (auto simp: clean_entry_def keep_entries_id)
  moreover have "case snd e of Dir sub \<Rightarrow> startswith (fst e) ''gfx'' \<longrightarrow> removable sub | File b \<Rightarrow> True"
    using s by (cases "snd e") (auto simp: removable_clean)
  ultimately show ?case
    using e ih by (simp add: cleanable_Cons cleaned_Cons)
qed

lemma wf_root_parts:
  assumes "wf_root root"
  shows "distinct (names root)"
    and "\<forall>f \<in> set (names root). CHR ''/'' \<notin> set f"
    and "\<forall>e \<in> set root. case snd e of Dir sub \<Rightarrow> distinct (names sub) | File b \<Rightarrow> True"
proof -
  from assms have r: "wf_dir root"
    and s: "list_all (\<lambda>e. case snd e of Dir sub \<Rightarrow> wf_dir sub | File b \<Rightarrow> True) root"
    by (simp_all add: wf_root_def)
  from r show "distinct (names root)" and "\<forall>f \<in> set (names root). CHR ''/'' \<notin> set f"
    by (simp_all add: wf_dir_def list_all_iff)
  show "\<forall>e \<in> set root. case snd e of Dir sub \<Rightarrow> distinct (names sub) | File b \<Rightarrow> True"
  proof
    fix e
    assume "e \<in> set root"
    with s have "case snd e of Dir sub \<Rightarrow> wf_dir sub | File b \<Rightarrow> True"
      by (simp add: list_all_iff)
    then show "case snd e of Dir sub \<Rightarrow> distinct (names sub) | File b \<Rightarrow> True"
      by (cases "snd e") (simp_all add: wf_dir_def)
  qed
qed

subsection \<open>Exit statuses and aborts\<close>

lemma with_status_fields [simp]:
  "LLVM_AS (with_status g env) = LLVM_AS env"
  "LLVM_LINK (with_status g env) = LLVM_LINK env"
  "OS_TYPE (with_status g env) = OS_TYPE env"
  "genGlslArithOpEmuCode_main (with_status g env) = genGlslArithOpEmuCode_main env"
  "genGlslImageOpEmuCode_main (with_status g env) = genGlslImageOpEmuCode_main env"
  by (simp_all add: with_status_def LLVM_AS_def LLVM_LINK_def)

lemma call_tool_with_status [simp]:
  "call_tool (with_status g env) cmd dest st = call_tool env cmd dest st"
  by (cases "subprocess_call env cmd (OS_TYPE env \<noteq> ''win'') (fs st)")
    (auto simp: call_tool_def with_status_def)

lemma and_then_ext: "(\<And>st. f st = g st) \<Longrightarrow> and_then r f = and_then r g"
  by (cases r) simp_all

lemma assemble_loop_with_status [simp]:
  "assemble_loop (with_status g env) listing st = assemble_loop env listing st"
  by (induction listing arbitrary: st) (auto intro: and_then_ext)

lemma special_emu_with_status [simp]:
  "special_emu (with_status g env) feature st = special_emu env feature st"
  by (simp add: special_emu_def Let_def)

lemma special_emus_with_status [simp]:
  "special_emus (with_status g env) features st = special_emus env features st"
  by (induction features arbitrary: st) (auto intro: and_then_ext)

lemma common_emu_with_status [simp]:
  "common_emu (with_status g env) st = common_emu env st"
  by (simp add: common_emu_def Let_def)

lemma gfx_assemble_loop_with_status [simp]:
  "gfx_assemble_loop (with_status g env) gfx listing st = gfx_assemble_loop env gfx listing st"
  by (induction listing arbitrary: st) (auto intro: and_then_ext)

lemma gfx_assemble_with_status [simp]:
  "gfx_assemble (with_status g env) gfx st = gfx_assemble env gfx st"
  by (cases "os_listdir gfx (fs st)") (simp_all add: gfx_assemble_def)

lemma gfx_package_with_status [simp]:
  "gfx_package (with_status g env) gfx st = gfx_package env gfx st"
  by (cases "os_listdir gfx (fs st)") (simp_all add: gfx_package_def Let_def)

lemma gfx_emu_with_status [simp]:
  "gfx_emu (with_status g env) gfx st = gfx_emu env gfx st"
  by (auto simp: gfx_emu_def gfx_generate_def intro!: and_then_ext)

lemma gfx_emus_with_status [simp]:
  "gfx_emus (with_status g env) gfxs st = gfx_emus env gfxs st"
  by (induction gfxs arbitrary: st) (auto intro: and_then_ext)

lemma with_status_fun [simp]:
  "common_emu (with_status g env) = common_emu env"
  "gfx_emus (with_status g env) gfxs = gfx_emus env gfxs"
  "special_emus (with_status g env) features = special_emus env features"
  by (rule ext, simp)+

lemma common_library_with_status [simp]:
  "common_library (with_status g env) st = common_library env st"
  by (simp add: common_library_def generate_arith_def)

lemma genGlslEmuLib_with_status:
  "genGlslEmuLib (with_status g env) root = genGlslEmuLib env root"
  by (simp add: genGlslEmuLib_def)

lemma call_tool_raises:
  "subprocess_call env cmd (OS_TYPE env \<noteq> ''win'') (fs st) = Inl e \<Longrightarrow>
     call_tool env cmd dest st = Inl (e, st)"
  by (simp add: call_tool_def)

lemma common_emu_no_library:
  assumes "subprocess_call env
      (LLVM_LINK env @ '' -o=glslEmu.lib '' @ collect_bcFiles (names (fs st)) '''')
      (OS_TYPE env \<noteq> ''win'') (fs st) = Inr (status, None)"
    and "read_file ''glslEmu.lib'' (fs st) = Inl e"
  shows "common_emu env st = Inl (e, st\<lparr>trace := trace st @
      [Exec (LLVM_LINK env @ '' -o=glslEmu.lib '' @ collect_bcFiles (names (fs st)) '''')]\<rparr>)"
  using assms by (simp add: common_emu_def call_tool_def deposit_def lib_to_hex_def Let_def)

subsection \<open>The variant stage\<close>








section \<open>Claims about the pipeline\<close>

text \<open>
  C7. If no object of the working root matches a special feature's pattern (name
  starting with \<open>glsl<feature>\<close> and ending with \<open>Emu.bc\<close>), the feature's step returns
  the state unchanged without an error: no command run, no header written, no file
  touched. The loop goes on with the next feature, and after the last feature the
  script packages the common library from that same state.
\<close>

theorem optional_feature_skip:
  assumes "filter (is_special_bc feature) (names (fs st)) = []"
  shows "special_emu env feature st = Inr st
     \<and> special_emus env (feature # rest) st = special_emus env rest st
     \<and> and_then (special_emus env [feature] st) (common_emu env) = common_emu env st"
  using assms by (simp add: special_emu_skip)

theorem optional_feature_skip_witness:
  "filter (is_special_bc ''CopyShader'') (names (fs demo_objects)) = []
   \<and> special_emu demo_env ''CopyShader'' demo_objects = Inr demo_objects
   \<and> and_then (special_emus demo_env [''CopyShader''] demo_objects) (common_emu demo_env)
       = common_emu demo_env demo_objects"
proof -
  have h: "filter (is_special_bc ''CopyShader'') (names (fs demo_objects)) = []"
    by code_simp
  from optional_feature_skip [OF h, of demo_env "[]"] h show ?thesis
    by simp
qed

text \<open>
  C10. When one or more objects of the working root match a special feature's pattern,
  the special stage runs exactly one link command for the feature, on the last match in
  listing order, and writes the feature's header. When the stage is over that object is
  gone and every other matching object is still there; the common library's link
  command, which follows, names exactly the objects ending in \<open>.bc\<close> that the root then
  holds, the other matching objects among them.
\<close>

theorem special_last_match_linked:
  assumes "wf_root (fs st)"
    and "special_emus env SPECIAL_EMUS st = Inr st2"
    and "common_emu env st2 = Inr st3"
    and "feature \<in> set SPECIAL_EMUS"
    and "filter (is_special_bc feature) (names (fs st)) = matching"
    and "matching \<noteq> []"
  shows "trace st2 = trace st @ special_events env ''NullFs'' (names (fs st))
           @ special_events env ''CopyShader'' (names (fs st))
     \<and> special_events env feature (names (fs st)) =
         [Exec (LLVM_LINK env @ '' -o=glsl'' @ feature @ ''Emu.lib '' @ last matching),
          WriteHeader (''g_llpcGlsl'' @ feature @ ''EmuLib.h'')]
     \<and> set (names (fs st2)) \<inter> set matching = set (butlast matching)
     \<and> trace st3 = trace st2 @
         [Exec (LLVM_LINK env @ '' -o=glslEmu.lib '' @
            concat (map (\<lambda>f. f @ '' '') (filter (\<lambda>f. endswith f ''.bc'') (names (fs st2))))),
          WriteHeader ''g_llpcGlslEmuLib.h'']
     \<and> set (butlast matching) \<subseteq> set (filter (\<lambda>f. endswith f ''.bc'') (names (fs st2)))
     \<and> last matching \<notin> set (filter (\<lambda>f. endswith f ''.bc'') (names (fs st2)))"
proof -
  have t: "trace st2 = trace st @ special_events env ''NullFs'' (names (fs st))
           @ special_events env ''CopyShader'' (names (fs st))"
    by (rule special_stage(1) [OF assms(1,2)])
  have e: "special_events env feature (names (fs st)) =
         [Exec (LLVM_LINK env @ '' -o=glsl'' @ feature @ ''Emu.lib '' @ last matching),
          WriteHeader (''g_llpcGlsl'' @ feature @ ''EmuLib.h'')]"
    using assms(5,6) by (simp add: special_events_def)
  have r: "set (names (fs st2)) \<inter> set matching = set (butlast matching)"
    using special_stage(2) [OF assms(1,2,4)] assms(5) by simp
  have c: "trace st3 = trace st2 @
         [Exec (LLVM_LINK env @ '' -o=glslEmu.lib '' @
            concat (map (\<lambda>f. f @ '' '') (filter (\<lambda>f. endswith f ''.bc'') (names (fs st2))))),
          WriteHeader ''g_llpcGlslEmuLib.h'']"
    by (rule common_emu_trace [OF assms(3)])
  have bc: "\<forall>m \<in> set matching. endswith m ''.bc''"
    using assms(5) by (auto intro: special_bc_ends_bc)
  have d: "distinct matching"
    using wf_root_distinct [OF assms(1), of None] assms(5) by auto
  have l: "last matching \<notin> set (butlast matching)"
    using set_butlast_distinct [OF d assms(6)] by simp
  have sub: "set (butlast matching) \<subseteq> set matching"
    by (auto dest: in_set_butlastD)
  have a: "set (butlast matching) \<subseteq> set (filter (\<lambda>f. endswith f ''.bc'') (names (fs st2)))"
    using r bc sub by auto
  have b: "last matching \<notin> set (filter (\<lambda>f. endswith f ''.bc'') (names (fs st2)))"
    using r l last_in_set [OF assms(6)] by auto
  from t e r c a b show ?thesis
    by (intro conjI)
qed

theorem special_last_match_linked_witness:
  "wf_root (fs demo_objects)
   \<and> special_emus demo_env SPECIAL_EMUS demo_objects = Inr demo_after_special
   \<and> common_emu demo_env demo_after_special = Inr demo_after_common
   \<and> filter (is_special_bc ''NullFs'') (names (fs demo_objects))
       = [''glslNullFsEmu.bc'', ''glslNullFsDebugEmu.bc'']
   \<and> special_events demo_env ''NullFs'' (names (fs demo_objects)) =
         [Exec (LLVM_LINK demo_env @ '' -o=glsl'' @ ''NullFs'' @ ''Emu.lib '' @
            last [''glslNullFsEmu.bc'', ''glslNullFsDebugEmu.bc'']),
          WriteHeader (''g_llpcGlsl'' @ ''NullFs'' @ ''EmuLib.h'')]
   \<and> set (names (fs demo_after_special)) \<inter> set [''glslNullFsEmu.bc'', ''glslNullFsDebugEmu.bc'']
       = set (butlast [''glslNullFsEmu.bc'', ''glslNullFsDebugEmu.bc''])
   \<and> set (butlast [''glslNullFsEmu.bc'', ''glslNullFsDebugEmu.bc''])
       \<subseteq> set (filter (\<lambda>f. endswith f ''.bc'') (names (fs demo_after_special)))"
proof -
  have 1: "wf_root (fs demo_objects)"
    by code_simp
  have 2: "special_emus demo_env SPECIAL_EMUS demo_objects = Inr demo_after_special"
    by code_simp
  have 3: "common_emu demo_env demo_after_special = Inr demo_after_common"
    by code_simp
  have 4: "''NullFs'' \<in> set SPECIAL_EMUS"
    by (simp add: SPECIAL_EMUS_def)
  have 5: "filter (is_special_bc ''NullFs'') (names (fs demo_objects))
      = [''glslNullFsEmu.bc'', ''glslNullFsDebugEmu.bc'']"
    by code_simp
  have 6: "[''glslNullFsEmu.bc'', ''glslNullFsDebugEmu.bc''] \<noteq> []"
    by simp
  from special_last_match_linked [OF 1 2 3 4 5 6] 1 2 3 5 show ?thesis
    by (intro conjI) (elim conjE, assumption)+
qed

text \<open>
  C5. On a well-formed tree the cleanup completes exactly when every entry it has to
  remove is a regular file (\<^verbatim>\<open>os.remove\<close> raises on a directory), and the tree it
  leaves is exactly this: the entries of the root whose names start with \<open>g_\<close> or end
  with \<open>.bc\<close> or \<open>.lib\<close> are gone; every remaining subdirectory whose name starts with
  \<open>gfx\<close> has lost its own entries with such names and nothing else (what lies deeper
  is untouched); every other entry is as it was. With no such name in the root or in a
  \<open>gfx\<close> subdirectory the cleanup completes and changes nothing.
\<close>

theorem cleanup_removes_generated:
  assumes "wf_root root"
  shows "(pre_compile_cleanup \<lparr>fs = root, trace = t\<rparr> = Inr st' \<longleftrightarrow>
            cleanable root \<and>
            st' = \<lparr>fs = map (\<lambda>e. case snd e of
                              Dir sub \<Rightarrow>
                                if startswith (fst e) ''gfx''
                                then (fst e, Dir (filter (\<lambda>e. \<not> is_generated (fst e)) sub))
                                else e
                            | File b \<Rightarrow> e)
                         (filter (\<lambda>e. \<not> is_generated (fst e)) root),
                    trace = t\<rparr>)
     \<and> (nothing_generated root \<longrightarrow>
           pre_compile_cleanup \<lparr>fs = root, trace = t\<rparr> = Inr \<lparr>fs = root, trace = t\<rparr>)"
proof -
  have c: "cleaned root = map (\<lambda>e. case snd e of
                              Dir sub \<Rightarrow>
                                if startswith (fst e) ''gfx''
                                then (fst e, Dir (filter (\<lambda>e. \<not> is_generated (fst e)) sub))
                                else e
                            | File b \<Rightarrow> e)
                         (filter (\<lambda>e. \<not> is_generated (fst e)) root)"
    unfolding cleaned_def clean_entry_def [abs_def] keep_entries_def by (rule refl)
  have d: "distinct (names ([] @ root))"
    using wf_root_parts(1) [OF assms] by simp
  have main: "pre_compile_cleanup \<lparr>fs = root, trace = t\<rparr> = Inr st' \<longleftrightarrow>
      cleanable root \<and> st' = \<lparr>fs = cleaned root, trace = t\<rparr>" for st'
    using clean_loop_closed [OF d wf_root_parts(2) [OF assms] wf_root_parts(3) [OF assms], of t st']
    by (simp add: pre_compile_cleanup_def)
  have "pre_compile_cleanup \<lparr>fs = root, trace = t\<rparr> = Inr \<lparr>fs = root, trace = t\<rparr>"
    if "nothing_generated root"
    using nothing_generated_cleaned [OF that] main [of "\<lparr>fs = root, trace = t\<rparr>"] by simp
  with main [of st'] show ?thesis
    unfolding c by blast
qed

theorem cleanup_removes_generated_witness:
  "wf_root demo_tree \<and> cleanable demo_tree
   \<and> pre_compile_cleanup \<lparr>fs = demo_tree, trace = []\<rparr> = Inr \<lparr>fs = demo_tree_cleaned, trace = []\<rparr>
   \<and> wf_root demo_tree_cleaned \<and> nothing_generated demo_tree_cleaned
   \<and> pre_compile_cleanup \<lparr>fs = demo_tree_cleaned, trace = []\<rparr>
       = Inr \<lparr>fs = demo_tree_cleaned, trace = []\<rparr>"
proof -
  have 1: "wf_root demo_tree" by code_simp
  have 2: "cleanable demo_tree" by code_simp
  have 3: "demo_tree_cleaned = map (\<lambda>e. case snd e of
                              Dir sub \<Rightarrow>
                                if startswith (fst e) ''gfx''
                                then (fst e, Dir (filter (\<lambda>e. \<not> is_generated (fst e)) sub))
                                else e
                            | File b \<Rightarrow> e)
                         (filter (\<lambda>e. \<not> is_generated (fst e)) demo_tree)"
    by code_simp
  have 4: "wf_root demo_tree_cleaned" by code_simp
  have 5: "nothing_generated demo_tree_cleaned" by code_simp
  from cleanup_removes_generated [OF 1, of "[]" "\<lparr>fs = demo_tree_cleaned, trace = []\<rparr>"] 2 3
  have a: "pre_compile_cleanup \<lparr>fs = demo_tree, trace = []\<rparr>
      = Inr \<lparr>fs = demo_tree_cleaned, trace = []\<rparr>"
    by simp
  from cleanup_removes_generated [OF 4, of "[]"] 5
  have b: "pre_compile_cleanup \<lparr>fs = demo_tree_cleaned, trace = []\<rparr>
      = Inr \<lparr>fs = demo_tree_cleaned, trace = []\<rparr>"
    by blast
  from 1 2 a 4 5 b show ?thesis by (intro conjI)
qed

text \<open>
  C3, as stated, fails. In \<open>demo_env\<close> the assembler exits with status 1 on
  \<open>g_glslArithOpEmuF64.ll\<close> and writes no object. The run does not stop there: it goes
  on to the link commands, writes the common library's header from the objects that
  exist, and completes.
\<close>

theorem failed_assembler_counterexample:
  "subprocess_call demo_env ''llvm-as g_glslArithOpEmuF64.ll'' (OS_TYPE demo_env \<noteq> ''win'')
       demo_tree_cleaned = Inr (1, None)
   \<and> genGlslEmuLib demo_env demo_tree = Inr demo_final
   \<and> take 7 (drop 2 (trace demo_final)) =
       [Exec ''llvm-as g_glslArithOpEmuF64.ll'',
        Exec ''llvm-link -o=glslNullFsEmu.lib glslNullFsEmu.bc'',
        WriteHeader ''g_llpcGlslNullFsEmuLib.h'',
        Exec ''llvm-link -o=glslEmu.lib g_glslArithOpEmu.bc '',
        WriteHeader ''g_llpcGlslEmuLib.h'',
        Exec ''llvm-as gfx6/keep.ll'',
        Exec ''llvm-as gfx6/g_glslImageOpEmu.ll'']
   \<and> read_file ''g_llpcGlslEmuLib.h'' (fs demo_final) = Inr (ascii_bytes ''0xde, 0xad'')"
  by code_simp

text \<open>
  C3, amended. The exit status of an assembler or linker invocation is never looked at:
  whatever statuses the invocations return, the run ends in the same state or with the
  same exception, so a failed assembler call does not stop it. An invocation stops the
  run only by raising (the process cannot be started), in the state it was called in.
  And when the linker of the common library leaves no library file and none is there,
  the step stops at reading the library, before the header is opened: the tree is as it
  was and no header has been written.
\<close>

theorem exit_status_ignored:
  "genGlslEmuLib (with_status g env) root = genGlslEmuLib env root
   \<and> (subprocess_call env cmd (OS_TYPE env \<noteq> ''win'') (fs st) = Inl e \<longrightarrow>
         call_tool env cmd dest st = Inl (e, st))
   \<and> (subprocess_call env
         (LLVM_LINK env @ '' -o=glslEmu.lib '' @ collect_bcFiles (names (fs st)) '''')
         (OS_TYPE env \<noteq> ''win'') (fs st) = Inr (status, None)
       \<and> read_file ''glslEmu.lib'' (fs st) = Inl e' \<longrightarrow>
         common_emu env st = Inl (e', st\<lparr>trace := trace st @
           [Exec (LLVM_LINK env @ '' -o=glslEmu.lib '' @ collect_bcFiles (names (fs st)) '''')]\<rparr>))"
  using genGlslEmuLib_with_status [of g env root] call_tool_raises [of env cmd st e dest]
    common_emu_no_library [of env st status e']
  by blast

theorem exit_status_ignored_witness:
  "genGlslEmuLib (with_status (\<lambda>cmd shell root status. 0) demo_env) demo_tree = Inr demo_final
   \<and> call_tool demo_env_broken ''llvm-as g_glslArithOpEmu.ll'' ''g_glslArithOpEmu.bc'' demo_objects
       = Inl (OSError, demo_objects)
   \<and> common_emu demo_env_broken demo_objects = Inl (FileNotFoundError, demo_objects\<lparr>trace :=
       [Exec ''llvm-link -o=glslEmu.lib glslNullFsEmu.bc glslArithOpEmu.bc glslNullFsDebugEmu.bc '']\<rparr>)"
proof -
  have run: "genGlslEmuLib demo_env demo_tree = Inr demo_final"
    by code_simp
  have raise: "subprocess_call demo_env_broken ''llvm-as g_glslArithOpEmu.ll''
      (OS_TYPE demo_env_broken \<noteq> ''win'') (fs demo_objects) = Inl OSError"
    by code_simp
  have cmd: "LLVM_LINK demo_env_broken @ '' -o=glslEmu.lib '' @
      collect_bcFiles (names (fs demo_objects)) ''''
      = ''llvm-link -o=glslEmu.lib glslNullFsEmu.bc glslArithOpEmu.bc glslNullFsDebugEmu.bc ''"
    by code_simp
  have nolib: "subprocess_call demo_env_broken
      ''llvm-link -o=glslEmu.lib glslNullFsEmu.bc glslArithOpEmu.bc glslNullFsDebugEmu.bc ''
      (OS_TYPE demo_env_broken \<noteq> ''win'') (fs demo_objects) = Inr (1, None)"
    by code_simp
  have noread: "read_file ''glslEmu.lib'' (fs demo_objects) = Inl FileNotFoundError"
    by code_simp
  have tr: "trace demo_objects = []"
    by code_simp
  note t1 = exit_status_ignored [where g = "\<lambda>cmd shell root status. 0" and env = demo_env
      and root = demo_tree]
  note t2 = exit_status_ignored [where env = demo_env_broken
      and cmd = "''llvm-as g_glslArithOpEmu.ll''" and st = demo_objects and e = OSError
      and dest = "''g_glslArithOpEmu.bc''" and status = 1 and e' = FileNotFoundError]
  from t1 run have 1: "genGlslEmuLib (with_status (\<lambda>cmd shell root status. 0) demo_env) demo_tree
      = Inr demo_final"
    by simp
  from t2 raise have 2: "call_tool demo_env_broken ''llvm-as g_glslArithOpEmu.ll''
      ''g_glslArithOpEmu.bc'' demo_objects = Inl (OSError, demo_objects)"
    by blast
  from t2 nolib noread have 3: "common_emu demo_env_broken demo_objects
      = Inl (FileNotFoundError, demo_objects\<lparr>trace := trace demo_objects @
          [Exec ''llvm-link -o=glslEmu.lib glslNullFsEmu.bc glslArithOpEmu.bc glslNullFsDebugEmu.bc '']\<rparr>)"
    unfolding cmd by blast
  from 1 2 3 show ?thesis
    unfolding tr by simp
qed



end
